theory Spec2Isabelle
  imports Main "HOL-Library.Word" "HOL-Library.Sublist"
begin

section \<open>JavaScript strings and buffers\<close>

text \<open>
  A Node \<open>Buffer\<close> / \<open>Uint8Array\<close> is a list of bytes. A JavaScript string is a list of
  UTF-16 code units. Charset labels (\<open>"UTF8"\<close>, \<open>"SJIS"\<close>, \<open>"ISO-2022-JP"\<close>, ...) and
  file paths are plain ASCII names and are kept as HOL strings.
\<close>

type_synonym byte = "8 word"
type_synonym cu = "16 word"
type_synonym jsstring = "cu list"
type_synonym label = string
type_synonym path = string

definition str :: "string \<Rightarrow> jsstring" where
  "str s = map (\<lambda>c. of_nat (of_char c)) s"

text \<open>
  Case folding of the regular-expression flag \<open>i\<close> (without flag \<open>u\<close>): a code unit is
  compared through its upper-case form, and a code unit outside ASCII never folds into
  ASCII. Every literal of the patterns below is ASCII, so only the ASCII letters need
  folding: a code unit of 128 or more is compared as it is.
\<close>

definition canon :: "cu \<Rightarrow> cu" where
  "canon c = (if 0x61 \<le> c \<and> c \<le> 0x7A then c - 0x20 else c)"

definition lineTerminator :: "cu \<Rightarrow> bool" where
  "lineTerminator c \<longleftrightarrow> c = 0x0A \<or> c = 0x0D \<or> c = 0x2028 \<or> c = 0x2029"

text \<open>The class \<open>\s\<close>: WhiteSpace and LineTerminator of ECMAScript.\<close>

definition whiteSpace :: "cu \<Rightarrow> bool" where
  "whiteSpace c \<longleftrightarrow>
     c = 0x09 \<or> c = 0x0A \<or> c = 0x0B \<or> c = 0x0C \<or> c = 0x0D \<or> c = 0x20 \<or> c = 0xA0 \<or>
     c = 0x1680 \<or> (0x2000 \<le> c \<and> c \<le> 0x200A) \<or> c = 0x2028 \<or> c = 0x2029 \<or>
     c = 0x202F \<or> c = 0x205F \<or> c = 0x3000 \<or> c = 0xFEFF"

section \<open>The regular expressions of the source\<close>

text \<open>
  Every pattern of \<open>converters.js\<close> is a sequence of literals, of quantified character
  classes and of the anchors \<open>^\<close> and \<open>$\<close>. A pattern is a list of such items; the matcher
  backtracks as the ECMAScript matcher does: a greedy quantifier tries the longest run
  first, a lazy one the shortest.
\<close>

datatype item =
    Lit bool jsstring
  | Rep bool "cu \<Rightarrow> bool" nat "nat option"
  | Bol bool
  | Eol bool

text \<open>
  \<open>Lit i l\<close>: the literal \<open>l\<close>, under flag \<open>i\<close> when the bit is set.
  \<open>Rep greedy cls lo hi\<close>: the class \<open>cls\<close> repeated \<open>lo\<close> to \<open>hi\<close> times (\<open>None\<close>: unbounded).
  \<open>Bol m\<close>, \<open>Eol m\<close>: \<open>^\<close> and \<open>$\<close>, under flag \<open>m\<close> when the bit is set.
\<close>

fun litMatch :: "bool \<Rightarrow> jsstring \<Rightarrow> jsstring \<Rightarrow> bool" where
  "litMatch ic [] s = True"
| "litMatch ic (p # ps) [] = False"
| "litMatch ic (p # ps) (c # cs) =
     ((if ic then canon p = canon c else p = c) \<and> litMatch ic ps cs)"

definition prevAfter :: "cu option \<Rightarrow> jsstring \<Rightarrow> cu option" where
  "prevAfter prev w = (if w = [] then prev else Some (last w))"

definition atBol :: "bool \<Rightarrow> cu option \<Rightarrow> bool" where
  "atBol m prev = (case prev of None \<Rightarrow> True | Some c \<Rightarrow> m \<and> lineTerminator c)"

definition atEol :: "bool \<Rightarrow> jsstring \<Rightarrow> bool" where
  "atEol m s = (case s of [] \<Rightarrow> True | c # _ \<Rightarrow> m \<and> lineTerminator c)"

definition counts :: "bool \<Rightarrow> nat \<Rightarrow> nat option \<Rightarrow> nat \<Rightarrow> nat list" where
  "counts greedy lo hi avail =
     (let top = (case hi of None \<Rightarrow> avail | Some h \<Rightarrow> min h avail);
          ks = [lo ..< Suc top]
      in if greedy then rev ks else ks)"

fun firstSome :: "('a \<Rightarrow> 'b option) \<Rightarrow> 'a list \<Rightarrow> 'b option" where
  "firstSome f [] = None"
| "firstSome f (x # xs) = (case f x of Some y \<Rightarrow> Some y | None \<Rightarrow> firstSome f xs)"

text \<open>
  \<open>matchHere re prev s\<close> matches \<open>re\<close> at the start of \<open>s\<close>, where \<open>prev\<close> is the code
  unit before \<open>s\<close> in the whole input (\<open>None\<close> at its start). The result is the number of
  code units each item has consumed.
\<close>

primrec matchHere :: "item list \<Rightarrow> cu option \<Rightarrow> jsstring \<Rightarrow> nat list option" where
  "matchHere [] prev s = Some []"
| "matchHere (it # r) prev s =
     (case it of
        Lit ic l \<Rightarrow>
          if litMatch ic l s
          then map_option (Cons (length l))
                 (matchHere r (prevAfter prev (take (length l) s)) (drop (length l) s))
          else None
      | Rep g cls lo hi \<Rightarrow>
          firstSome (\<lambda>k. map_option (Cons k)
                           (matchHere r (prevAfter prev (take k s)) (drop k s)))
            (counts g lo hi (length (takeWhile cls s)))
      | Bol m \<Rightarrow> if atBol m prev then map_option (Cons 0) (matchHere r prev s) else None
      | Eol m \<Rightarrow> if atEol m s then map_option (Cons 0) (matchHere r prev s) else None)"

text \<open>
  The leftmost match: the text before it, the item lengths, and the text from the start
  of the match on.
\<close>

primrec findFrom ::
  "item list \<Rightarrow> cu option \<Rightarrow> jsstring \<Rightarrow> (jsstring \<times> nat list \<times> jsstring) option" where
  "findFrom re prev [] = map_option (\<lambda>ls. ([], ls, [])) (matchHere re prev [])"
| "findFrom re prev (c # cs) =
     (case matchHere re prev (c # cs) of
        Some ls \<Rightarrow> Some ([], ls, c # cs)
      | None \<Rightarrow> map_option (\<lambda>(pre, ls, t). (c # pre, ls, t)) (findFrom re (Some c) cs))"

text \<open>\<open>RegExp.prototype.test\<close>.\<close>

definition test :: "item list \<Rightarrow> jsstring \<Rightarrow> bool" where
  "test re s = (findFrom re None s \<noteq> None)"

text \<open>
  \<open>String.prototype.replace\<close> with a pattern without flag \<open>g\<close>: the leftmost match only.
  The replacement receives the matched text and the item lengths (for the groups).
\<close>

definition replaceFirst ::
  "item list \<Rightarrow> (jsstring \<Rightarrow> nat list \<Rightarrow> jsstring) \<Rightarrow> jsstring \<Rightarrow> jsstring" where
  "replaceFirst re f s =
     (case findFrom re None s of
        None \<Rightarrow> s
      | Some (pre, ls, t) \<Rightarrow>
          pre @ f (take (sum_list ls) t) ls @ drop (sum_list ls) t)"

text \<open>
  \<open>String.prototype.replace\<close> with flag \<open>g\<close>: every match from left to right, the next
  search starting where the last match ended, and one code unit further after an empty
  match. \<open>skip\<close> counts the code units of the current match still to be dropped.
\<close>

primrec replaceAllFrom ::
  "item list \<Rightarrow> (jsstring \<Rightarrow> nat list \<Rightarrow> jsstring) \<Rightarrow> cu option \<Rightarrow> nat \<Rightarrow> jsstring \<Rightarrow> jsstring"
  where
  "replaceAllFrom re f prev skip [] =
     (if skip = 0 then (case matchHere re prev [] of Some ls \<Rightarrow> f [] ls | None \<Rightarrow> [])
      else [])"
| "replaceAllFrom re f prev skip (c # cs) =
     (if 0 < skip then replaceAllFrom re f (Some c) (skip - 1) cs
      else case matchHere re prev (c # cs) of
             None \<Rightarrow> c # replaceAllFrom re f (Some c) 0 cs
           | Some ls \<Rightarrow>
               (let n = sum_list ls
                in f (take n (c # cs)) ls @
                   (if n = 0 then c # replaceAllFrom re f (Some c) 0 cs
                    else replaceAllFrom re f (Some c) (n - 1) cs)))"

definition replaceAll ::
  "item list \<Rightarrow> (jsstring \<Rightarrow> nat list \<Rightarrow> jsstring) \<Rightarrow> jsstring \<Rightarrow> jsstring" where
  "replaceAll re f s = replaceAllFrom re f None 0 s"

section \<open>Buffers: binary and UTF-8 views\<close>

text \<open>\<open>buffer.toString("binary")\<close>: one code unit per byte.\<close>

definition toStringBinary :: "byte list \<Rightarrow> jsstring" where
  "toStringBinary buffer = map ucast buffer"

text \<open>\<open>String.prototype.includes\<close>.\<close>

fun strIncludes :: "jsstring \<Rightarrow> jsstring \<Rightarrow> bool" where
  "strIncludes [] pat = (pat = [])"
| "strIncludes (c # cs) pat = (litMatch False pat (c # cs) \<or> strIncludes cs pat)"

text \<open>
  \<open>buffer.toString("utf8")\<close>: the UTF-8 decoder of Node, which never fails: every
  maximal ill-formed part of the input becomes one U+FFFD, and a byte order mark is
  kept. \<open>utf8Step\<close> reads one code point and tells how many bytes it took.
\<close>

definition cont :: "nat \<Rightarrow> bool" where
  "cont b \<longleftrightarrow> 0x80 \<le> b \<and> b \<le> 0xBF"

definition second3 :: "nat \<Rightarrow> nat \<Rightarrow> bool" where
  "second3 b0 b1 \<longleftrightarrow>
     (if b0 = 0xE0 then 0xA0 \<le> b1 \<and> b1 \<le> 0xBF
      else if b0 = 0xED then 0x80 \<le> b1 \<and> b1 \<le> 0x9F
      else cont b1)"

definition second4 :: "nat \<Rightarrow> nat \<Rightarrow> bool" where
  "second4 b0 b1 \<longleftrightarrow>
     (if b0 = 0xF0 then 0x90 \<le> b1 \<and> b1 \<le> 0xBF
      else if b0 = 0xF4 then 0x80 \<le> b1 \<and> b1 \<le> 0x8F
      else cont b1)"

fun utf8Step :: "nat list \<Rightarrow> nat \<times> nat" where
  "utf8Step [] = (0xFFFD, 1)"
| "utf8Step (b0 # bs) =
     (if b0 < 0x80 then (b0, 1)
      else if 0xC2 \<le> b0 \<and> b0 \<le> 0xDF then
        (case bs of
           b1 # _ \<Rightarrow> if cont b1 then ((b0 - 0xC0) * 0x40 + (b1 - 0x80), 2) else (0xFFFD, 1)
         | [] \<Rightarrow> (0xFFFD, 1))
      else if 0xE0 \<le> b0 \<and> b0 \<le> 0xEF then
        (case bs of
           b1 # bs1 \<Rightarrow>
             if second3 b0 b1 then
               (case bs1 of
                  b2 # _ \<Rightarrow>
                    if cont b2
                    then ((b0 - 0xE0) * 0x1000 + (b1 - 0x80) * 0x40 + (b2 - 0x80), 3)
                    else (0xFFFD, 2)
                | [] \<Rightarrow> (0xFFFD, 2))
             else (0xFFFD, 1)
         | [] \<Rightarrow> (0xFFFD, 1))
      else if 0xF0 \<le> b0 \<and> b0 \<le> 0xF4 then
        (case bs of
           b1 # bs1 \<Rightarrow>
             if second4 b0 b1 then
               (case bs1 of
                  b2 # bs2 \<Rightarrow>
                    if cont b2 then
                      (case bs2 of
                         b3 # _ \<Rightarrow>
                           if cont b3
                           then ((b0 - 0xF0) * 0x40000 + (b1 - 0x80) * 0x1000 +
                                 (b2 - 0x80) * 0x40 + (b3 - 0x80), 4)
                           else (0xFFFD, 3)
                       | [] \<Rightarrow> (0xFFFD, 3))
                    else (0xFFFD, 2)
                | [] \<Rightarrow> (0xFFFD, 2))
             else (0xFFFD, 1)
         | [] \<Rightarrow> (0xFFFD, 1))
      else (0xFFFD, 1))"

text \<open>A code point as UTF-16: one code unit, or a surrogate pair.\<close>

definition toUtf16 :: "nat \<Rightarrow> jsstring" where
  "toUtf16 cp =
     (if cp < 0x10000 then [of_nat cp]
      else [of_nat (0xD800 + (cp - 0x10000) div 0x400),
            of_nat (0xDC00 + (cp - 0x10000) mod 0x400)])"

function decodeUtf8 :: "nat list \<Rightarrow> jsstring" where
  "decodeUtf8 [] = []"
| "decodeUtf8 (b # bs) =
     toUtf16 (fst (utf8Step (b # bs))) @ decodeUtf8 (drop (snd (utf8Step (b # bs))) (b # bs))"
  by pat_completeness auto
termination
proof (relation "measure length")
  show "wf (measure length)" by simp
next
  fix b :: nat and bs :: "nat list"
  have "0 < snd (utf8Step (b # bs))" by (auto split: list.splits)
  then show "(drop (snd (utf8Step (b # bs))) (b # bs), b # bs) \<in> measure length"
    by simp
qed

definition toStringUtf8 :: "byte list \<Rightarrow> jsstring" where
  "toStringUtf8 buffer = decodeUtf8 (map unat buffer)"

text \<open>
  \<open>fs.writeFile(path, content, "utf8")\<close> stores the UTF-8 encoding of the string: a
  surrogate pair is one code point of four bytes, a lone surrogate is written as U+FFFD.
\<close>

definition isHigh :: "nat \<Rightarrow> bool" where
  "isHigh c \<longleftrightarrow> 0xD800 \<le> c \<and> c \<le> 0xDBFF"

definition isLow :: "nat \<Rightarrow> bool" where
  "isLow c \<longleftrightarrow> 0xDC00 \<le> c \<and> c \<le> 0xDFFF"

definition encUnit :: "nat \<Rightarrow> nat list" where
  "encUnit c =
     (if c < 0x80 then [c]
      else if c < 0x800 then [0xC0 + c div 0x40, 0x80 + c mod 0x40]
      else if isHigh c \<or> isLow c then [0xEF, 0xBF, 0xBD]
      else [0xE0 + c div 0x1000, 0x80 + (c div 0x40) mod 0x40, 0x80 + c mod 0x40])"

definition encPair :: "nat \<Rightarrow> nat \<Rightarrow> nat list" where
  "encPair hi lo =
     (let cp = 0x10000 + (hi - 0xD800) * 0x400 + (lo - 0xDC00)
      in [0xF0 + cp div 0x40000, 0x80 + (cp div 0x1000) mod 0x40,
          0x80 + (cp div 0x40) mod 0x40, 0x80 + cp mod 0x40])"

fun encodeNat :: "nat list \<Rightarrow> nat list" where
  "encodeNat [] = []"
| "encodeNat [c] = encUnit c"
| "encodeNat (c # d # cs) =
     (if isHigh c \<and> isLow d then encPair c d @ encodeNat cs
      else encUnit c @ encodeNat (d # cs))"

definition encodeUtf8 :: "jsstring \<Rightarrow> byte list" where
  "encodeUtf8 s = map of_nat (encodeNat (map unat s))"

section \<open>The encoding library\<close>

text \<open>
  \<open>Encoding.detect\<close> and \<open>Encoding.convert\<close> belong to the package
  \<open>encoding-japanese\<close>, which is not part of this repository: they are parameters.
  \<open>detect\<close> returns a label, or \<open>false\<close> (here \<open>None\<close>) when it recognises nothing;
  \<open>convert\<close> is only ever called with \<open>to: "UNICODE", type: "string"\<close> and returns a
  string.
\<close>

record encoding =
  detect :: "byte list \<Rightarrow> label option"
  convert :: "byte list \<Rightarrow> label \<Rightarrow> jsstring"

text \<open>
  A value that is a string, \<open>false\<close> or \<open>undefined\<close> is a \<open>label option\<close>; it is truthy
  when it is a non-empty string. \<open>jsOr\<close> is the operator \<open>||\<close>.
\<close>

definition truthy :: "label option \<Rightarrow> bool" where
  "truthy v = (case v of None \<Rightarrow> False | Some l \<Rightarrow> l \<noteq> [])"

definition jsOr :: "label option \<Rightarrow> label option \<Rightarrow> label option" where
  "jsOr a b = (if truthy a then a else b)"

text \<open>\<open>String.prototype.toUpperCase\<close> on a label (ASCII).\<close>

definition toUpperChar :: "char \<Rightarrow> char" where
  "toUpperChar c =
     (let n = (of_char c :: nat) in if 97 \<le> n \<and> n \<le> 122 then char_of (n - 32) else c)"

definition toUpperCase :: "label \<Rightarrow> label" where
  "toUpperCase l = map toUpperChar l"

section \<open>fixHtmlEncodingIfNeeded\<close>

subsection \<open>Steps 1 and 2: the charset\<close>

definition hasEsc :: "byte list \<Rightarrow> bool" where
  "hasEsc buffer =
     (let bin = toStringBinary buffer
      in 0x1B \<in> set buffer \<and> (strIncludes bin (str ''$B'') \<or> strIncludes bin (str ''(B'')))"

definition detectEnc :: "encoding \<Rightarrow> byte list \<Rightarrow> label option \<Rightarrow> label option" where
  "detectEnc lib buffer forceEnc =
     (let e = jsOr forceEnc (detect lib buffer)
      in if \<not> truthy forceEnc \<and> hasEsc buffer then Some ''ISO-2022-JP'' else e)"

subsection \<open>Step 3: transcoding\<close>

text \<open>Each step returns the content and the flag \<open>needFix\<close> as it leaves them.\<close>

definition transcode :: "encoding \<Rightarrow> byte list \<Rightarrow> label option \<Rightarrow> jsstring \<times> bool" where
  "transcode lib buffer e =
     (case e of
        Some l \<Rightarrow>
          if l \<noteq> [] \<and> toUpperCase l \<noteq> ''UTF8'' then (convert lib buffer l, True)
          else (toStringUtf8 buffer, False)
      | None \<Rightarrow> (toStringUtf8 buffer, False))"

subsection \<open>Step 4: the charset declaration\<close>

definition notGt :: "cu \<Rightarrow> bool" where
  "notGt c = (c \<noteq> 0x3E)"

definition quote :: "cu \<Rightarrow> bool" where
  "quote c = (c = 0x22 \<or> c = 0x27)"

text \<open>\<open>/<meta[^>]*charset[^>]*>/i\<close>\<close>

definition metaCharsetRe :: "item list" where
  "metaCharsetRe =
     [Lit True (str ''<meta''), Rep True notGt 0 None, Lit True (str ''charset''),
      Rep True notGt 0 None, Lit True (str ''>'')]"

text \<open>\<open>/<meta[^>]*charset=["']?utf-8["']?/i\<close>\<close>

definition utf8MetaRe :: "item list" where
  "utf8MetaRe =
     [Lit True (str ''<meta''), Rep True notGt 0 None, Lit True (str ''charset=''),
      Rep True quote 0 (Some 1), Lit True (str ''utf-8''), Rep True quote 0 (Some 1)]"

text \<open>\<open>/<head[^>]*>/i\<close>\<close>

definition headRe :: "item list" where
  "headRe = [Lit True (str ''<head''), Rep True notGt 0 None, Lit True (str ''>'')]"

text \<open>The canonical declaration \<open><meta charset="UTF-8">\<close>.\<close>

definition canonMeta :: jsstring where
  "canonMeta = str ''<meta charset='' @ [0x22] @ str ''UTF-8'' @ [0x22] @ str ''>''"

definition repairMeta :: "jsstring \<times> bool \<Rightarrow> jsstring \<times> bool" where
  "repairMeta cn =
     (let content = fst cn;
          hasMeta = test metaCharsetRe content;
          isUtf8Meta = test utf8MetaRe content
      in if \<not> hasMeta \<or> \<not> isUtf8Meta then
           (if hasMeta then replaceFirst metaCharsetRe (\<lambda>m ls. canonMeta) content
            else if test headRe content
              then replaceFirst headRe (\<lambda>m ls. m @ [0x0A, 0x20, 0x20] @ canonMeta) content
            else str ''<head>'' @ canonMeta @ str ''</head>'' @ [0x0A] @ content,
            True)
         else cn)"

subsection \<open>Step 5: the closing tags\<close>

text \<open>\<open>/<\/body>/i\<close> and \<open>/<\/html>/i\<close>\<close>

definition bodyRe :: "item list" where
  "bodyRe = [Lit True (str ''</body>'')]"

definition htmlRe :: "item list" where
  "htmlRe = [Lit True (str ''</html>'')]"

definition closeWith :: "item list \<Rightarrow> jsstring \<Rightarrow> jsstring \<times> bool \<Rightarrow> jsstring \<times> bool" where
  "closeWith re tag cn = (if \<not> test re (fst cn) then (fst cn @ [0x0A] @ tag, True) else cn)"

definition repairClosers :: "jsstring \<times> bool \<Rightarrow> jsstring \<times> bool" where
  "repairClosers cn = closeWith htmlRe (str ''</html>'') (closeWith bodyRe (str ''</body>'') cn)"

subsection \<open>The whole routine\<close>

text \<open>Steps 1 to 5 on the bytes read: the charset, the final content, the flag.\<close>

definition steps1to5 :: "encoding \<Rightarrow> byte list \<Rightarrow> label option \<Rightarrow> label option \<times> jsstring \<times> bool"
  where
  "steps1to5 lib buffer forceEnc =
     (let e = detectEnc lib buffer forceEnc
      in (e, repairClosers (repairMeta (transcode lib buffer e))))"

text \<open>
  The file system is a map from paths to file contents; \<open>fs.readFile\<close> rejects when the
  path has no file. What the routine does to the outside is recorded in order: the files
  it writes and the lines it logs (a log line is kept as its kind and the two values it
  interpolates).
\<close>

datatype error = ENOENT path

datatype diag = Fixed path "label option" | Skipped path "label option"

datatype effect = WriteFile path "byte list" | ConsoleLog diag

record world =
  files :: "path \<Rightarrow> byte list option"
  trace :: "effect list"

record result =
  needFix :: bool
  enc :: "label option"

definition fixHtmlEncodingIfNeeded ::
  "encoding \<Rightarrow> world \<Rightarrow> path \<Rightarrow> label option \<Rightarrow> error + (result \<times> world)" where
  "fixHtmlEncodingIfNeeded lib w filePath forceEnc =
     (case files w filePath of
        None \<Rightarrow> Inl (ENOENT filePath)
      | Some buffer \<Rightarrow>
          (case steps1to5 lib buffer forceEnc of
             (e, content, nf) \<Rightarrow>
               Inr (\<lparr>needFix = nf, enc = jsOr e None\<rparr>,
                    if nf
                    then w\<lparr>files := (files w)(filePath \<mapsto> encodeUtf8 content),
                           trace := trace w @ [WriteFile filePath (encodeUtf8 content),
                                               ConsoleLog (Fixed filePath e)]\<rparr>
                    else w\<lparr>trace := trace w @ [ConsoleLog (Skipped filePath e)]\<rparr>)))"

text \<open>Which effects are writes; the others are log lines.\<close>

fun isWrite :: "effect \<Rightarrow> bool" where
  "isWrite (WriteFile q b) = True"
| "isWrite (ConsoleLog d) = False"

section \<open>preprocessMarkdown\<close>

definition anyChar :: "cu \<Rightarrow> bool" where
  "anyChar c = True"

definition hash :: "cu \<Rightarrow> bool" where
  "hash c = (c = 0x23)"

text \<open>\<open>/^---[\s\S]*?---\s*/m\<close>\<close>

definition frontMatterRe :: "item list" where
  "frontMatterRe =
     [Bol True, Lit False (str ''---''), Rep False anyChar 0 None, Lit False (str ''---''),
      Rep True whiteSpace 0 None]"

text \<open>\<open>/^\s*marp:\s*true\s*$/gmi\<close>\<close>

definition marpRe :: "item list" where
  "marpRe =
     [Bol True, Rep True whiteSpace 0 None, Lit True (str ''marp:''),
      Rep True whiteSpace 0 None, Lit True (str ''true''), Rep True whiteSpace 0 None,
      Eol True]"

text \<open>\<open>/^(#{1,6})\s+#+\s+/gm\<close>; the group is the second item.\<close>

definition headingRe :: "item list" where
  "headingRe =
     [Bol True, Rep True hash 1 (Some 6), Rep True whiteSpace 1 None, Rep True hash 1 None,
      Rep True whiteSpace 1 None]"

text \<open>\<open>/^\s+/\<close>\<close>

definition leadingSpaceRe :: "item list" where
  "leadingSpaceRe = [Bol False, Rep True whiteSpace 1 None]"

text \<open>The replacement \<open>"$1 "\<close> of the heading pattern: the group and one space.\<close>

definition group1Space :: "jsstring \<Rightarrow> nat list \<Rightarrow> jsstring" where
  "group1Space m ls = take (ls ! 1) (drop (ls ! 0) m) @ [0x20]"

definition preprocessMarkdown :: "jsstring \<Rightarrow> jsstring" where
  "preprocessMarkdown md =
     (let out1 = replaceFirst frontMatterRe (\<lambda>m ls. []) md;
          out2 = replaceAll marpRe (\<lambda>m ls. []) out1;
          out3 = replaceAll headingRe group1Space out2;
          out4 = replaceFirst leadingSpaceRe (\<lambda>m ls. []) out3
      in out4)"

section \<open>run.js\<close>

text \<open>
  \<open>path.parse\<close> belongs to Node: it is a parameter giving the name and the extension of
  the argument. \<open>toLowerCase\<close> is modelled on ASCII; the letters it leaves alone are not
  ASCII and none of them becomes a letter of the four extensions compared.
\<close>

definition toLowerUnit :: "cu \<Rightarrow> cu" where
  "toLowerUnit c = (if 0x41 \<le> c \<and> c \<le> 0x5A then c + 0x20 else c)"

definition toLowerCase :: "jsstring \<Rightarrow> jsstring" where
  "toLowerCase s = map toLowerUnit s"

datatype action =
    MdToHtml jsstring
  | WordToHtml jsstring
  | HtmlToPdf jsstring
  | Exit1

definition main :: "jsstring \<Rightarrow> jsstring \<Rightarrow> action" where
  "main baseName ext =
     (if ext = str ''.md'' then MdToHtml baseName
      else if ext = str ''.docx'' then WordToHtml baseName
      else if ext = str ''.html'' \<or> ext = str ''.htm'' then HtmlToPdf baseName
      else Exit1)"

definition run :: "(jsstring \<Rightarrow> jsstring \<times> jsstring) \<Rightarrow> jsstring option \<Rightarrow> action" where
  "run pathParse argFileName =
     (case argFileName of
        None \<Rightarrow> Exit1
      | Some arg \<Rightarrow>
          if arg = [] then Exit1
          else (let parsed = pathParse arg;
                    baseName = fst parsed;
                    ext = toLowerCase (snd parsed)
                in main baseName ext))"

section \<open>Matches as decompositions\<close>

text \<open>
  What a match is, apart from the order in which the matcher tries the alternatives:
  \<open>fits re prev s ls\<close> holds when the items of \<open>re\<close> match consecutive parts of \<open>s\<close> of the
  lengths \<open>ls\<close>. The matcher finds a match exactly when one exists.
\<close>

fun itemOk :: "item \<Rightarrow> cu option \<Rightarrow> jsstring \<Rightarrow> nat \<Rightarrow> bool" where
  "itemOk (Lit ic l) prev s k = (k = length l \<and> litMatch ic l s)"
| "itemOk (Rep g cls lo hi) prev s k =
     (lo \<le> k \<and> (case hi of None \<Rightarrow> True | Some h \<Rightarrow> k \<le> h) \<and> k \<le> length (takeWhile cls s))"
| "itemOk (Bol m) prev s k = (k = 0 \<and> atBol m prev)"
| "itemOk (Eol m) prev s k = (k = 0 \<and> atEol m s)"

fun fits :: "item list \<Rightarrow> cu option \<Rightarrow> jsstring \<Rightarrow> nat list \<Rightarrow> bool" where
  "fits [] prev s ls = (ls = [])"
| "fits (it # r) prev s [] = False"
| "fits (it # r) prev s (k # ks) =
     (itemOk it prev s k \<and> fits r (prevAfter prev (take k s)) (drop k s) ks)"

text \<open>Items other than anchors: their match does not depend on what comes before.\<close>

fun plain :: "item \<Rightarrow> bool" where
  "plain (Lit ic l) = True"
| "plain (Rep g cls lo hi) = True"
| "plain (Bol m) = False"
| "plain (Eol m) = False"

text \<open>The four tests of steps 4 and 5, all passed.\<close>

definition compliant :: "jsstring \<Rightarrow> bool" where
  "compliant content \<longleftrightarrow>
     test metaCharsetRe content \<and> test utf8MetaRe content \<and>
     test bodyRe content \<and> test htmlRe content"

section \<open>Writing and reading back\<close>

text \<open>
  What reading as UTF-8 returns for a string written as UTF-8: the string itself, with
  every lone surrogate replaced by U+FFFD.
\<close>

definition fixup :: "nat \<Rightarrow> nat" where
  "fixup u = (if isHigh u \<or> isLow u then 0xFFFD else u)"

fun sanitize :: "nat list \<Rightarrow> nat list" where
  "sanitize [] = []"
| "sanitize [c] = [fixup c]"
| "sanitize (c # d # cs) =
     (if isHigh c \<and> isLow d then c # d # sanitize cs else fixup c # sanitize (d # cs))"

text \<open>
  Two code units agree on ASCII when they are equal or both outside ASCII. The patterns of
  steps 4 and 5 only have ASCII literals and classes that do not tell two code units
  outside ASCII apart.
\<close>

definition skel :: "cu \<Rightarrow> cu \<Rightarrow> bool" where
  "skel a b \<longleftrightarrow> a = b \<or> (0x80 \<le> a \<and> 0x80 \<le> b)"

fun asciiItem :: "item \<Rightarrow> bool" where
  "asciiItem (Lit ic l) = (\<forall>p\<in>set l. p < 0x80)"
| "asciiItem (Rep g cls lo hi) = (\<forall>a b. skel a b \<longrightarrow> cls a = cls b)"
| "asciiItem (Bol m) = False"
| "asciiItem (Eol m) = False"

section \<open>Counting\<close>

text \<open>
  The number of matches of a pattern with flag \<open>g\<close> (the length of
  \<open>content.match(re)\<close>): the matches from left to right, each search starting where the
  last match ended.
\<close>

primrec countFrom :: "item list \<Rightarrow> cu option \<Rightarrow> nat \<Rightarrow> jsstring \<Rightarrow> nat" where
  "countFrom re prev skip [] = (if skip = 0 \<and> matchHere re prev [] \<noteq> None then 1 else 0)"
| "countFrom re prev skip (c # cs) =
     (if 0 < skip then countFrom re (Some c) (skip - 1) cs
      else case matchHere re prev (c # cs) of
             None \<Rightarrow> countFrom re (Some c) 0 cs
           | Some ls \<Rightarrow> Suc (countFrom re (Some c) (sum_list ls - 1) cs))"

definition matchCount :: "item list \<Rightarrow> jsstring \<Rightarrow> nat" where
  "matchCount re s = countFrom re None 0 s"

text \<open>
  The labels that make step 3 read the bytes as UTF-8: \<open>false\<close>, the empty string, and
  \<open>UTF8\<close> in any case.
\<close>

definition utf8Label :: "label option \<Rightarrow> bool" where
  "utf8Label e = (case e of None \<Rightarrow> True | Some l \<Rightarrow> l = [] \<or> toUpperCase l = ''UTF8'')"

text \<open>
  The number of places where a tag occurs, in any case; whether two code units are
  neighbours inside the tag; the declaration tag that step 4 replaces, if it replaces one;
  and the two closing tags.
\<close>

primrec countOcc :: "jsstring \<Rightarrow> jsstring \<Rightarrow> nat" where
  "countOcc pat [] = 0"
| "countOcc pat (c # cs) = (if litMatch True pat (c # cs) then 1 else 0) + countOcc pat cs"

definition inner :: "jsstring \<Rightarrow> cu \<Rightarrow> cu \<Rightarrow> bool" where
  "inner pat x y = list_ex (\<lambda>(p, q). canon p = canon x \<and> canon q = canon y) (zip pat (tl pat))"

definition rewrittenTag :: "jsstring \<Rightarrow> jsstring" where
  "rewrittenTag content =
     (if test metaCharsetRe content \<and> \<not> test utf8MetaRe content
      then (case findFrom metaCharsetRe None content of
              Some (pre, ls, t) \<Rightarrow> take (sum_list ls) t
            | None \<Rightarrow> [])
      else [])"

definition closerTag :: "jsstring \<Rightarrow> bool" where
  "closerTag pat \<longleftrightarrow> pat = str ''</body>'' \<or> pat = str ''</html>''"

text \<open>
  A pattern for a whole tag ends with the literal \<open>>\<close> and nothing before that can match
  \<open>>\<close>, so each of its matches ends at the first \<open>>\<close> after its start. \<open>lastPiece\<close> is the
  text after the last \<open>>\<close> of a string, where a tag may be left open.
\<close>

fun gtFree :: "item \<Rightarrow> bool" where
  "gtFree (Lit ic l) = (0x3E \<notin> set l)"
| "gtFree (Rep g cls lo hi) = (\<not> cls 0x3E)"
| "gtFree (Bol m) = False"
| "gtFree (Eol m) = False"

fun gtLit :: "item \<Rightarrow> bool" where
  "gtLit (Lit ic l) = (ic \<and> l = [0x3E])"
| "gtLit (Rep g cls lo hi) = False"
| "gtLit (Bol m) = False"
| "gtLit (Eol m) = False"

definition closedTag :: "item list \<Rightarrow> bool" where
  "closedTag re \<longleftrightarrow> re \<noteq> [] \<and> gtLit (last re) \<and> list_all gtFree (butlast re)"





section \<open>Example inputs\<close>

text \<open>
  The bytes of an ASCII text; a library whose detector gives one fixed answer and whose
  converter reads one code unit per byte; and a stand-in for \<open>path.parse\<close> on arguments
  whose base name has four letters.
\<close>

definition asciiBytes :: "string \<Rightarrow> byte list" where
  "asciiBytes s = map (\<lambda>c. of_nat (of_char c)) s"

definition stubLib :: "label option \<Rightarrow> encoding" where
  "stubLib l = \<lparr>detect = (\<lambda>b. l), convert = (\<lambda>b l. toStringBinary b)\<rparr>"

definition parse4 :: "jsstring \<Rightarrow> jsstring \<times> jsstring" where
  "parse4 a = (take 4 a, drop 4 a)"

text \<open>
  A file system with one file; pages in ASCII: one that is compliant, the same with the
  bytes \<open>ESC ( B\<close> in its text, and one with two charset declarations; and the
  content that the routine leaves of the last one.
\<close>

definition oneFile :: "path \<Rightarrow> byte list \<Rightarrow> world" where
  "oneFile p b = \<lparr>files = Map.empty(p \<mapsto> b), trace = []\<rparr>"

definition plainPage :: "byte list" where
  "plainPage = asciiBytes ''<meta charset='' @ [0x22] @ asciiBytes ''UTF-8'' @ [0x22] @
     asciiBytes ''></body></html>''"

definition escPage :: "byte list" where
  "escPage = asciiBytes ''<meta charset='' @ [0x22] @ asciiBytes ''UTF-8'' @ [0x22] @
     asciiBytes ''>'' @ [0x1B] @ asciiBytes ''(B</body></html>''"

definition twoMetaPage :: "byte list" where
  "twoMetaPage = asciiBytes
     ''<meta charset=Shift_JIS><meta http-equiv=Content-Type content=text/html;charset=Shift_JIS></body></html>''"

definition plainText :: jsstring where
  "plainText = canonMeta @ str ''</body></html>''"

definition twoMetaText :: jsstring where
  "twoMetaText = str
     ''<meta charset=Shift_JIS><meta http-equiv=Content-Type content=text/html;charset=Shift_JIS></body></html>''"

definition twoMetaFixed :: jsstring where
  "twoMetaFixed = canonMeta @ str
     ''<meta http-equiv=Content-Type content=text/html;charset=Shift_JIS></body></html>''"

definition escText :: jsstring where
  "escText = canonMeta @ [0x1B] @ str ''(B</body></html>''"





text \<open>A page whose unclosed declaration tag runs into the first \<open></body>\<close>.\<close>

definition swallowPage :: "byte list" where
  "swallowPage = asciiBytes ''<meta charset=x</body></body></html>''"

definition swallowText :: jsstring where
  "swallowText = str ''<meta charset=x</body></body></html>''"

text \<open>
  Two Markdown documents: the example of the source's comment (a Marp front matter and a
  heading with a doubled marker), and a document with no front matter and two horizontal
  rules.
\<close>

definition marpDoc :: jsstring where
  "marpDoc = str ''---'' @ [0x0A] @ str ''marp: true'' @ [0x0A] @ str ''---'' @ [0x0A] @
     str ''## ### **Q1**'' @ [0x0A] @ str ''text''"

definition rulesDoc :: jsstring where
  "rulesDoc = str ''# Title'' @ [0x0A] @ str ''---'' @ [0x0A] @ str ''Section one'' @ [0x0A] @
     str ''---'' @ [0x0A] @ str ''Section two''"

section \<open>Detection: escape sequences and forced charsets\<close>

lemma litMatch_self: "litMatch ic p (p @ r)"
  by (induction p) auto

lemma strIncludes_mid: "strIncludes (a @ p @ r) p"
proof (induction a)
  case Nil
  show ?case
  proof (cases "p @ r")
    case Nil
    then show ?thesis by simp
  next
    case (Cons c cs)
    have "litMatch False p (p @ r)" by (rule litMatch_self)
    with Cons show ?thesis by simp
  qed
next
  case (Cons x a)
  then show ?case by simp
qed

lemma hasEsc_seq:
  assumes "sq = [0x24, 0x42] \<or> sq = [0x28, 0x42]"
  shows "hasEsc (pre @ 0x1B # sq @ post)"
proof -
  let ?bin = "toStringBinary (pre @ 0x1B # sq @ post)"
  have bin: "?bin = (toStringBinary pre @ [0x1B]) @ toStringBinary sq @ toStringBinary post"
    by (simp add: toStringBinary_def)
  from assms have "toStringBinary sq = str ''$B'' \<or> toStringBinary sq = str ''(B''"
    by (auto simp: toStringBinary_def str_def)
  then have "strIncludes ?bin (str ''$B'') \<or> strIncludes ?bin (str ''(B'')"
    unfolding bin using strIncludes_mid by metis
  then show ?thesis by (simp add: hasEsc_def Let_def)
qed

text \<open>
  C4. When no charset is forced and the bytes of the file contain 0x1B followed by
  \<open>$B\<close> or by \<open>(B\<close>, the charset is ISO-2022-JP and that is the label returned, whatever
  the detector and the converter of the library are.
\<close>

theorem esc_precedence:
  assumes "files w p = Some buffer"
    and "\<not> truthy forceEnc"
    and "buffer = pre @ 0x1B # sq @ post"
    and "sq = [0x24, 0x42] \<or> sq = [0x28, 0x42]"
  shows "detectEnc lib buffer forceEnc = Some ''ISO-2022-JP'' \<and>
         (case fixHtmlEncodingIfNeeded lib w p forceEnc of
            Inl e \<Rightarrow> False
          | Inr (r, w') \<Rightarrow> enc r = Some ''ISO-2022-JP'')"
proof -
  have "hasEsc buffer" using assms(3,4) hasEsc_seq by simp
  with assms(2) have d: "detectEnc lib buffer forceEnc = Some ''ISO-2022-JP''"
    by (simp add: detectEnc_def Let_def)
  then show ?thesis using assms(1)
    by (simp add: fixHtmlEncodingIfNeeded_def steps1to5_def Let_def jsOr_def truthy_def
        split: prod.splits)
qed

theorem esc_precedence_witness:
  "detectEnc \<lparr>detect = (\<lambda>b. Some ''SJIS''), convert = (\<lambda>b l. toStringBinary b)\<rparr>
     [0x41, 0x1B, 0x24, 0x42, 0x30] None = Some ''ISO-2022-JP'' \<and>
   (case fixHtmlEncodingIfNeeded
           \<lparr>detect = (\<lambda>b. Some ''SJIS''), convert = (\<lambda>b l. toStringBinary b)\<rparr>
           \<lparr>files = (\<lambda>q. Some [0x41, 0x1B, 0x24, 0x42, 0x30]), trace = []\<rparr> ''a.html'' None of
      Inl e \<Rightarrow> False
    | Inr (r, w') \<Rightarrow> enc r = Some ''ISO-2022-JP'')"
proof -
  have h1: "files \<lparr>files = (\<lambda>q. Some [0x41, 0x1B, 0x24, 0x42, 0x30]), trace = []\<rparr> ''a.html''
            = Some [0x41, 0x1B, 0x24, 0x42, 0x30]" by simp
  have h2: "\<not> truthy None" by (simp add: truthy_def)
  have h3: "[0x41, 0x1B, 0x24, 0x42, 0x30] = [0x41] @ 0x1B # [0x24, 0x42] @ [0x30::byte]"
    by simp
  have h4: "[0x24, 0x42] = [0x24, 0x42::byte] \<or> [0x24, 0x42] = [0x28, 0x42::byte]" by simp
  show ?thesis by (rule esc_precedence [OF h1 h2 h3 h4])
qed

text \<open>
  C9. A forced charset (a non-empty label) is the charset used and the label returned,
  also when the bytes carry a JIS escape sequence: the override is not applied.
\<close>

theorem forced_charset_wins:
  assumes "files w p = Some buffer" and "l \<noteq> []"
  shows "detectEnc lib buffer (Some l) = Some l \<and>
         (case fixHtmlEncodingIfNeeded lib w p (Some l) of
            Inl e \<Rightarrow> False
          | Inr (r, w') \<Rightarrow> enc r = Some l)"
proof -
  have d: "detectEnc lib buffer (Some l) = Some l"
    using assms(2) by (simp add: detectEnc_def Let_def jsOr_def truthy_def)
  then show ?thesis using assms
    by (simp add: fixHtmlEncodingIfNeeded_def steps1to5_def Let_def jsOr_def truthy_def
        split: prod.splits)
qed

theorem forced_charset_wins_witness:
  "hasEsc [0x1B, 0x28, 0x42] \<and>
   detectEnc \<lparr>detect = (\<lambda>b. Some ''UTF8''), convert = (\<lambda>b l. toStringBinary b)\<rparr>
     [0x1B, 0x28, 0x42] (Some ''SJIS'') = Some ''SJIS'' \<and>
   (case fixHtmlEncodingIfNeeded
           \<lparr>detect = (\<lambda>b. Some ''UTF8''), convert = (\<lambda>b l. toStringBinary b)\<rparr>
           \<lparr>files = (\<lambda>q. Some [0x1B, 0x28, 0x42]), trace = []\<rparr> ''a.html'' (Some ''SJIS'') of
      Inl e \<Rightarrow> False
    | Inr (r, w') \<Rightarrow> enc r = Some ''SJIS'')"
proof -
  have h0: "hasEsc ([] @ 0x1B # [0x28, 0x42] @ [])" by (rule hasEsc_seq) simp
  have h1: "files \<lparr>files = (\<lambda>q. Some [0x1B, 0x28, 0x42]), trace = []\<rparr> ''a.html''
            = Some [0x1B, 0x28, 0x42]" by simp
  have h2: "''SJIS'' \<noteq> []" by simp
  show ?thesis using h0 forced_charset_wins [OF h1 h2] by simp
qed

text \<open>
  C6. When no charset is forced, the detector gives no label (\<open>false\<close>, or an empty
  string) and the bytes have no JIS escape sequence, the call returns a result: the
  transcoding step reads the bytes as UTF-8 and leaves the flag unset, and the converter
  of the library has no part in the outcome.
\<close>

theorem unknown_detection_lenient:
  assumes "files w p = Some buffer"
    and "\<not> truthy forceEnc"
    and "\<not> truthy (detect lib buffer)"
    and "\<not> hasEsc buffer"
  shows "transcode lib buffer (detectEnc lib buffer forceEnc) = (toStringUtf8 buffer, False) \<and>
         (case fixHtmlEncodingIfNeeded lib w p forceEnc of
            Inl e \<Rightarrow> False
          | Inr (r, w') \<Rightarrow> enc r = None) \<and>
         fixHtmlEncodingIfNeeded (lib\<lparr>convert := cv\<rparr>) w p forceEnc =
           fixHtmlEncodingIfNeeded lib w p forceEnc"
proof -
  have d: "detectEnc lib' buffer forceEnc = detect lib buffer"
    if "detect lib' = detect lib" for lib'
    using assms(2,4) that by (simp add: detectEnc_def Let_def jsOr_def)
  have t: "transcode lib' buffer (detect lib buffer) = (toStringUtf8 buffer, False)" for lib'
    using assms(3) by (auto simp: transcode_def truthy_def split: option.splits)
  have n: "steps1to5 lib' buffer forceEnc =
      (detect lib buffer, repairClosers (repairMeta (toStringUtf8 buffer, False)))"
    if "detect lib' = detect lib" for lib'
    using d [OF that] t by (simp add: steps1to5_def Let_def)
  have n1: "steps1to5 lib buffer forceEnc =
      (detect lib buffer, repairClosers (repairMeta (toStringUtf8 buffer, False)))"
    by (rule n) simp
  have n2: "steps1to5 (lib\<lparr>convert := cv\<rparr>) buffer forceEnc =
      (detect lib buffer, repairClosers (repairMeta (toStringUtf8 buffer, False)))"
    by (rule n) simp
  have j: "jsOr (detect lib buffer) None = None"
    using assms(3) by (simp add: jsOr_def)
  show ?thesis
    using assms(1) d [of lib] t [of lib] n1 n2 j
    by (simp add: fixHtmlEncodingIfNeeded_def split: prod.splits)
qed

theorem unknown_detection_lenient_witness:
  "transcode (stubLib None) (asciiBytes ''hi'') (detectEnc (stubLib None) (asciiBytes ''hi'') None)
     = (toStringUtf8 (asciiBytes ''hi''), False) \<and>
   (case fixHtmlEncodingIfNeeded (stubLib None)
           \<lparr>files = (\<lambda>q. Some (asciiBytes ''hi'')), trace = []\<rparr> ''a.html'' None of
      Inl e \<Rightarrow> False
    | Inr (r, w') \<Rightarrow> enc r = None) \<and>
   fixHtmlEncodingIfNeeded (stubLib None\<lparr>convert := (\<lambda>b l. [])\<rparr>)
       \<lparr>files = (\<lambda>q. Some (asciiBytes ''hi'')), trace = []\<rparr> ''a.html'' None =
     fixHtmlEncodingIfNeeded (stubLib None)
       \<lparr>files = (\<lambda>q. Some (asciiBytes ''hi'')), trace = []\<rparr> ''a.html'' None"
proof -
  have h1: "files \<lparr>files = (\<lambda>q. Some (asciiBytes ''hi'')), trace = []\<rparr> ''a.html''
            = Some (asciiBytes ''hi'')" by simp
  have h2: "\<not> truthy None" by (simp add: truthy_def)
  have h3: "\<not> truthy (detect (stubLib None) (asciiBytes ''hi''))"
    by (simp add: truthy_def stubLib_def)
  have h4: "\<not> hasEsc (asciiBytes ''hi'')"
    by (simp add: hasEsc_def asciiBytes_def)
  show ?thesis by (rule unknown_detection_lenient [OF h1 h2 h3 h4])
qed

section \<open>The write and the diagnostic\<close>

text \<open>
  C7. A call that returns has appended to the record of effects either one write of the
  file at the given path followed by one log line, when the flag returned is set, or one
  log line and no write, when it is not. In the first case the file at the path holds the
  UTF-8 encoding of the final content and every other file is as before; in the second
  case every file is as before.
\<close>

theorem write_iff_modified:
  assumes "fixHtmlEncodingIfNeeded lib w p forceEnc = Inr (r, w')"
    and "files w p = Some buffer"
  shows "take (length (trace w)) (trace w') = trace w \<and>
         (filter isWrite (drop (length (trace w)) (trace w')) \<noteq> []) = needFix r \<and>
         length (filter (\<lambda>e. \<not> isWrite e) (drop (length (trace w)) (trace w'))) = 1 \<and>
         (if needFix r
          then files w' =
                 (files w)(p \<mapsto> encodeUtf8 (fst (snd (steps1to5 lib buffer forceEnc)))) \<and>
               drop (length (trace w)) (trace w') =
                 [WriteFile p (encodeUtf8 (fst (snd (steps1to5 lib buffer forceEnc)))),
                  ConsoleLog (Fixed p (fst (steps1to5 lib buffer forceEnc)))]
          else files w' = files w \<and>
               drop (length (trace w)) (trace w') =
                 [ConsoleLog (Skipped p (fst (steps1to5 lib buffer forceEnc)))])"
proof -
  obtain e content nf where n: "steps1to5 lib buffer forceEnc = (e, content, nf)"
    by (cases "steps1to5 lib buffer forceEnc") auto
  show ?thesis
  proof (cases nf)
    case True
    with assms n have "r = \<lparr>needFix = True, enc = jsOr e None\<rparr>"
      and "w' = w\<lparr>files := (files w)(p \<mapsto> encodeUtf8 content),
                   trace := trace w @ [WriteFile p (encodeUtf8 content), ConsoleLog (Fixed p e)]\<rparr>"
      by (auto simp: fixHtmlEncodingIfNeeded_def)
    then show ?thesis using n by simp
  next
    case False
    with assms n have "r = \<lparr>needFix = False, enc = jsOr e None\<rparr>"
      and "w' = w\<lparr>trace := trace w @ [ConsoleLog (Skipped p e)]\<rparr>"
      by (auto simp: fixHtmlEncodingIfNeeded_def)
    then show ?thesis using n by simp
  qed
qed

lemma steps1to5_empty:
  "steps1to5 (stubLib (Some ''UTF8'')) [] None =
     (Some ''UTF8'',
      str ''<head>'' @ canonMeta @ str ''</head>'' @ [0x0A, 0x0A] @ str ''</body>'' @ [0x0A] @
        str ''</html>'',
      True)"
  by code_simp

theorem write_iff_modified_witness:
  "fixHtmlEncodingIfNeeded (stubLib (Some ''UTF8'')) \<lparr>files = (\<lambda>q. Some []), trace = []\<rparr>
      ''a.html'' None =
     Inr (\<lparr>needFix = True, enc = Some ''UTF8''\<rparr>,
          \<lparr>files = (\<lambda>q. Some [])(''a.html'' \<mapsto> encodeUtf8 (fst (snd (steps1to5 (stubLib (Some ''UTF8'')) [] None)))),
           trace = [WriteFile ''a.html'' (encodeUtf8 (fst (snd (steps1to5 (stubLib (Some ''UTF8'')) [] None)))),
                    ConsoleLog (Fixed ''a.html'' (Some ''UTF8''))]\<rparr>) \<and>
   filter isWrite
     [WriteFile ''a.html'' (encodeUtf8 (fst (snd (steps1to5 (stubLib (Some ''UTF8'')) [] None)))),
      ConsoleLog (Fixed ''a.html'' (Some ''UTF8''))] \<noteq> []"
proof -
  let ?lib = "stubLib (Some ''UTF8'')"
  let ?w = "\<lparr>files = (\<lambda>q. Some []), trace = []\<rparr>"
  let ?bs = "encodeUtf8 (fst (snd (steps1to5 ?lib [] None)))"
  let ?r = "\<lparr>needFix = True, enc = Some ''UTF8''\<rparr>"
  let ?w' = "\<lparr>files = (\<lambda>q. Some [])(''a.html'' \<mapsto> ?bs),
              trace = [WriteFile ''a.html'' ?bs, ConsoleLog (Fixed ''a.html'' (Some ''UTF8''))]\<rparr>"
  have h1: "fixHtmlEncodingIfNeeded ?lib ?w ''a.html'' None = Inr (?r, ?w')"
    by (simp add: fixHtmlEncodingIfNeeded_def steps1to5_empty jsOr_def truthy_def)
  have h2: "files ?w ''a.html'' = Some []" by simp
  show ?thesis using h1 write_iff_modified [OF h1 h2] by simp
qed

section \<open>The dispatch of run.js\<close>

text \<open>
  C10. The extension is lower-cased before it is compared: \<open>.md\<close> goes to \<open>mdToHtml\<close>,
  \<open>.docx\<close> to \<open>wordToHtml\<close>, \<open>.html\<close> and \<open>.htm\<close> to \<open>htmlToPdf\<close>, each with the base name
  of the argument, and every other extension exits with status 1 and calls no converter.
\<close>

theorem extension_dispatch:
  assumes "arg \<noteq> []" and "pathParse arg = (baseName, ext)"
  shows "run pathParse (Some arg) = main baseName (toLowerCase ext) \<and>
         (toLowerCase ext = str ''.md'' \<longrightarrow> run pathParse (Some arg) = MdToHtml baseName) \<and>
         (toLowerCase ext = str ''.docx'' \<longrightarrow> run pathParse (Some arg) = WordToHtml baseName) \<and>
         (toLowerCase ext = str ''.html'' \<or> toLowerCase ext = str ''.htm''
            \<longrightarrow> run pathParse (Some arg) = HtmlToPdf baseName) \<and>
         (toLowerCase ext \<notin> {str ''.md'', str ''.docx'', str ''.html'', str ''.htm''}
            \<longrightarrow> run pathParse (Some arg) = Exit1)"
  using assms by (auto simp: run_def main_def Let_def str_def)

theorem extension_dispatch_witness:
  "run parse4 (Some (str ''note.MD'')) = MdToHtml (str ''note'') \<and>
   run parse4 (Some (str ''memo.Docx'')) = WordToHtml (str ''memo'') \<and>
   run parse4 (Some (str ''page.HTM'')) = HtmlToPdf (str ''page'') \<and>
   run parse4 (Some (str ''page.html'')) = HtmlToPdf (str ''page'') \<and>
   run parse4 (Some (str ''file.pdf'')) = Exit1"
proof -
  have lc: "toLowerCase (str ''.MD'') = str ''.md''" "toLowerCase (str ''.Docx'') = str ''.docx''"
    "toLowerCase (str ''.HTM'') = str ''.htm''" "toLowerCase (str ''.html'') = str ''.html''"
    "toLowerCase (str ''.pdf'') \<notin> {str ''.md'', str ''.docx'', str ''.html'', str ''.htm''}"
    by (simp_all add: toLowerCase_def toLowerUnit_def str_def)
  have a1: "str ''note.MD'' \<noteq> []" and p1: "parse4 (str ''note.MD'') = (str ''note'', str ''.MD'')"
    by (simp_all add: str_def parse4_def)
  have a2: "str ''memo.Docx'' \<noteq> []"
    and p2: "parse4 (str ''memo.Docx'') = (str ''memo'', str ''.Docx'')"
    by (simp_all add: str_def parse4_def)
  have a3: "str ''page.HTM'' \<noteq> []" and p3: "parse4 (str ''page.HTM'') = (str ''page'', str ''.HTM'')"
    by (simp_all add: str_def parse4_def)
  have a4: "str ''page.html'' \<noteq> []"
    and p4: "parse4 (str ''page.html'') = (str ''page'', str ''.html'')"
    by (simp_all add: str_def parse4_def)
  have a5: "str ''file.pdf'' \<noteq> []" and p5: "parse4 (str ''file.pdf'') = (str ''file'', str ''.pdf'')"
    by (simp_all add: str_def parse4_def)
  have r1: "run parse4 (Some (str ''note.MD'')) = MdToHtml (str ''note'')"
    using extension_dispatch [where pathParse = parse4, OF a1 p1] lc(1) by (elim conjE) simp
  have r2: "run parse4 (Some (str ''memo.Docx'')) = WordToHtml (str ''memo'')"
    using extension_dispatch [where pathParse = parse4, OF a2 p2] lc(2) by (elim conjE) simp
  have r3: "run parse4 (Some (str ''page.HTM'')) = HtmlToPdf (str ''page'')"
    using extension_dispatch [where pathParse = parse4, OF a3 p3] lc(3) by (elim conjE) simp
  have r4: "run parse4 (Some (str ''page.html'')) = HtmlToPdf (str ''page'')"
    using extension_dispatch [where pathParse = parse4, OF a4 p4] lc(4) by (elim conjE) simp
  have r5: "run parse4 (Some (str ''file.pdf'')) = Exit1"
    using extension_dispatch [where pathParse = parse4, OF a5 p5] lc(5) by (elim conjE) simp
  show ?thesis using r1 r2 r3 r4 r5 by simp
qed

section \<open>The matcher finds a match exactly when one exists\<close>

lemma counts_set:
  "k \<in> set (counts g lo hi avail) \<longleftrightarrow>
     lo \<le> k \<and> k \<le> avail \<and> (case hi of None \<Rightarrow> True | Some h \<Rightarrow> k \<le> h)"
  by (auto simp: counts_def Let_def split: option.splits)

lemma firstSome_Some: "firstSome f xs = Some y \<Longrightarrow> \<exists>x\<in>set xs. f x = Some y"
  by (induction xs) (auto split: option.splits)

lemma firstSome_None: "firstSome f xs = None \<Longrightarrow> x \<in> set xs \<Longrightarrow> f x = None"
  by (induction xs) (auto split: option.splits)

lemma matchHere_sound: "matchHere re prev s = Some ls \<Longrightarrow> fits re prev s ls"
proof (induction re arbitrary: prev s ls)
  case Nil
  then show ?case by simp
next
  case (Cons it r)
  show ?case
  proof (cases it)
    case (Lit ic l)
    with Cons.prems obtain ks where "litMatch ic l s" "ls = length l # ks"
      "matchHere r (prevAfter prev (take (length l) s)) (drop (length l) s) = Some ks"
      by (auto split: if_splits)
    with Cons.IH Lit show ?thesis by simp
  next
    case (Rep g cls lo hi)
    with Cons.prems obtain k where k: "k \<in> set (counts g lo hi (length (takeWhile cls s)))"
      and "map_option (Cons k) (matchHere r (prevAfter prev (take k s)) (drop k s)) = Some ls"
      by (auto dest!: firstSome_Some)
    then obtain ks where "ls = k # ks" "matchHere r (prevAfter prev (take k s)) (drop k s) = Some ks"
      by auto
    with Cons.IH Rep k show ?thesis by (auto simp: counts_set)
  next
    case (Bol m)
    with Cons.prems obtain ks where "atBol m prev" "ls = 0 # ks" "matchHere r prev s = Some ks"
      by (auto split: if_splits)
    with Cons.IH [of prev s ks] Bol show ?thesis by (simp add: prevAfter_def)
  next
    case (Eol m)
    with Cons.prems obtain ks where "atEol m s" "ls = 0 # ks" "matchHere r prev s = Some ks"
      by (auto split: if_splits)
    with Cons.IH [of prev s ks] Eol show ?thesis by (simp add: prevAfter_def)
  qed
qed

lemma matchHere_complete: "fits re prev s ls \<Longrightarrow> matchHere re prev s \<noteq> None"
proof (induction re arbitrary: prev s ls)
  case Nil
  then show ?case by simp
next
  case (Cons it r)
  from Cons.prems obtain k ks where ls: "ls = k # ks" by (cases ls) auto
  with Cons.prems have ok: "itemOk it prev s k"
    and rest: "fits r (prevAfter prev (take k s)) (drop k s) ks" by auto
  from Cons.IH [OF rest] obtain ks' where
    m: "matchHere r (prevAfter prev (take k s)) (drop k s) = Some ks'" by auto
  show ?case
  proof (cases it)
    case (Lit ic l)
    with ok m show ?thesis by auto
  next
    case (Rep g cls lo hi)
    with ok have "k \<in> set (counts g lo hi (length (takeWhile cls s)))"
      by (auto simp: counts_set)
    then have "firstSome (\<lambda>k. map_option (Cons k)
                           (matchHere r (prevAfter prev (take k s)) (drop k s)))
            (counts g lo hi (length (takeWhile cls s))) \<noteq> None"
      using m firstSome_None [where x = k and f = "\<lambda>k. map_option (Cons k)
                           (matchHere r (prevAfter prev (take k s)) (drop k s))"]
      by fastforce
    with Rep show ?thesis by simp
  next
    case (Bol m')
    with ok m show ?thesis by (auto simp: prevAfter_def)
  next
    case (Eol m')
    with ok m show ?thesis by (auto simp: prevAfter_def)
  qed
qed

lemma fits_length: "fits re prev s ls \<Longrightarrow> length ls = length re"
  by (induction re prev s ls rule: fits.induct) auto

lemma litMatch_length: "litMatch ic l s \<Longrightarrow> length l \<le> length s"
  by (induction ic l s rule: litMatch.induct) auto

lemma itemOk_le: "itemOk it prev s k \<Longrightarrow> k \<le> length s"
proof (cases it)
  case (Rep g cls lo hi)
  assume "itemOk it prev s k"
  with Rep have "k \<le> length (takeWhile cls s)" by simp
  also have "\<dots> \<le> length s" by (rule length_takeWhile_le)
  finally show ?thesis .
qed (auto dest: litMatch_length)

lemma fits_sum_le: "fits re prev s ls \<Longrightarrow> sum_list ls \<le> length s"
proof (induction re prev s ls rule: fits.induct)
  case (3 it r prev s k ks)
  then have "k \<le> length s" and "sum_list ks \<le> length (drop k s)"
    by (auto dest: itemOk_le)
  then show ?case by simp
qed auto

lemma findFrom_shape:
  "findFrom re prev s = Some (pre, ls, t) \<Longrightarrow>
     s = pre @ t \<and> matchHere re (prevAfter prev pre) t = Some ls"
proof (induction s arbitrary: prev pre)
  case Nil
  then show ?case by (auto simp: prevAfter_def)
next
  case (Cons c cs)
  show ?case
  proof (cases "matchHere re prev (c # cs)")
    case (Some ls')
    with Cons.prems show ?thesis by (auto simp: prevAfter_def)
  next
    case None
    with Cons.prems obtain pre' where p: "pre = c # pre'"
      and f: "findFrom re (Some c) cs = Some (pre', ls, t)" by auto
    from Cons.IH [OF f] have "cs = pre' @ t" "matchHere re (prevAfter (Some c) pre') t = Some ls"
      by auto
    with p show ?thesis by (auto simp: prevAfter_def)
  qed
qed

lemma findFrom_complete:
  "matchHere re (prevAfter prev pre) t \<noteq> None \<Longrightarrow> findFrom re prev (pre @ t) \<noteq> None"
proof (induction pre arbitrary: prev)
  case Nil
  then show ?case by (cases t) (auto simp: prevAfter_def)
next
  case (Cons c pre)
  from Cons.prems have "matchHere re (prevAfter (Some c) pre) t \<noteq> None"
    by (auto simp: prevAfter_def split: if_splits)
  from Cons.IH [OF this] show ?case by (auto split: option.splits)
qed

lemma itemOk_plain_prev: "plain it \<Longrightarrow> itemOk it p s k = itemOk it p' s k"
  by (cases it) auto

lemma fits_prev: "list_all plain re \<Longrightarrow> fits re p s ls \<Longrightarrow> fits re p' s ls"
proof (induction re p s ls arbitrary: p' rule: fits.induct)
  case (3 it r prev s k ks)
  then have "itemOk it p' s k" using itemOk_plain_prev [of it prev s k p'] by simp
  moreover have "fits r (prevAfter p' (take k s)) (drop k s) ks"
    using 3 by simp
  ultimately show ?case by simp
qed auto

lemma litMatch_append: "litMatch ic l s \<Longrightarrow> litMatch ic l (s @ x)"
  by (induction ic l s rule: litMatch.induct) auto

lemma takeWhile_append_le: "length (takeWhile P s) \<le> length (takeWhile P (s @ x))"
  by (induction s) auto

lemma itemOk_append: "plain it \<Longrightarrow> itemOk it p s k \<Longrightarrow> itemOk it p (s @ x) k"
proof (cases it)
  case (Rep g cls lo hi)
  assume "itemOk it p s k"
  with Rep takeWhile_append_le [of cls s x] show ?thesis by auto
qed (auto intro: litMatch_append)

lemma fits_append: "list_all plain re \<Longrightarrow> fits re p s ls \<Longrightarrow> fits re p (s @ x) ls"
proof (induction re p s ls rule: fits.induct)
  case (3 it r prev s k ks)
  then have ok: "itemOk it prev s k" and pl: "plain it" by auto
  then have kl: "k \<le> length s" by (auto dest: itemOk_le)
  have "itemOk it prev (s @ x) k" using ok pl by (rule itemOk_append [rotated])
  moreover have "fits r (prevAfter prev (take k s)) (drop k s @ x) ks" using 3 by simp
  ultimately show ?case using kl by simp
qed auto

lemma test_intro:
  assumes "list_all plain re" and "fits re p t ls"
  shows "test re (pre @ t @ post)"
proof -
  have "fits re (prevAfter None pre) (t @ post) ls"
    using assms by (blast intro: fits_prev fits_append)
  then have "matchHere re (prevAfter None pre) (t @ post) \<noteq> None"
    by (rule matchHere_complete)
  then show ?thesis unfolding test_def by (rule findFrom_complete)
qed

lemma test_elim:
  assumes "test re s"
  obtains pre ls t where "s = pre @ t" and "fits re (prevAfter None pre) t ls"
proof -
  from assms obtain pre ls t where "findFrom re None s = Some (pre, ls, t)"
    by (auto simp: test_def)
  then have "s = pre @ t" "matchHere re (prevAfter None pre) t = Some ls"
    by (auto dest: findFrom_shape)
  then show ?thesis using that by (auto dest: matchHere_sound)
qed

lemma test_append: "list_all plain re \<Longrightarrow> test re s \<Longrightarrow> test re (s @ x)"
  by (erule test_elim) (auto dest: test_intro)

lemma test_prepend: "list_all plain re \<Longrightarrow> test re s \<Longrightarrow> test re (x @ s)"
proof (erule test_elim)
  fix pre ls t
  assume pl: "list_all plain re" and s: "s = pre @ t" and f: "fits re (prevAfter None pre) t ls"
  have "test re ((x @ pre) @ t @ [])" using pl f by (rule test_intro)
  with s show "test re (x @ s)" by simp
qed

lemma plain_res [simp]:
  "list_all plain metaCharsetRe" "list_all plain utf8MetaRe" "list_all plain headRe"
  "list_all plain bodyRe" "list_all plain htmlRe"
  by (simp_all add: metaCharsetRe_def utf8MetaRe_def headRe_def bodyRe_def htmlRe_def)

lemma canonMeta_fits_meta: "fits metaCharsetRe p canonMeta [5, 1, 7, 8, 1]"
  by (simp add: metaCharsetRe_def canonMeta_def str_def canon_def notGt_def)

lemma canonMeta_fits_utf8: "fits utf8MetaRe p canonMeta [5, 1, 8, 1, 5, 1]"
  by (simp add: utf8MetaRe_def canonMeta_def str_def canon_def notGt_def quote_def)

lemma test_canonMeta:
  "test metaCharsetRe (a @ canonMeta @ b)" "test utf8MetaRe (a @ canonMeta @ b)"
  using test_intro [OF plain_res(1) canonMeta_fits_meta]
    test_intro [OF plain_res(2) canonMeta_fits_utf8] by blast+

section \<open>What steps 4 and 5 establish\<close>

lemma replaceFirst_shape:
  assumes "test re s"
  obtains pre m post ls where "s = pre @ m @ post"
    and "replaceFirst re f s = pre @ f m ls @ post"
    and "fits re (prevAfter None pre) (m @ post) ls"
    and "length m = sum_list ls"
proof -
  from assms obtain pre ls t where ff: "findFrom re None s = Some (pre, ls, t)"
    by (auto simp: test_def)
  then have s: "s = pre @ t" and "matchHere re (prevAfter None pre) t = Some ls"
    by (auto dest: findFrom_shape)
  then have f: "fits re (prevAfter None pre) t ls" by (auto dest: matchHere_sound)
  then have le: "sum_list ls \<le> length t" by (rule fits_sum_le)
  let ?m = "take (sum_list ls) t" and ?post = "drop (sum_list ls) t"
  have "s = pre @ ?m @ ?post" using s by simp
  moreover have "replaceFirst re f s = pre @ f ?m ls @ ?post"
    using ff by (simp add: replaceFirst_def)
  moreover have "fits re (prevAfter None pre) (?m @ ?post) ls" using f by simp
  moreover have "length ?m = sum_list ls" using le by simp
  ultimately show ?thesis using that by blast
qed

lemma repairMeta_tests:
  "test metaCharsetRe (fst (repairMeta cn)) \<and> test utf8MetaRe (fst (repairMeta cn))"
proof (cases "test metaCharsetRe (fst cn)")
  case hm: True
  show ?thesis
  proof (cases "test utf8MetaRe (fst cn)")
    case True
    with hm show ?thesis by (simp add: repairMeta_def Let_def)
  next
    case False
    obtain pre m post ls where
      "replaceFirst metaCharsetRe (\<lambda>m ls. canonMeta) (fst cn) = pre @ canonMeta @ post"
      using hm by (rule replaceFirst_shape)
    with hm False show ?thesis by (simp add: repairMeta_def Let_def test_canonMeta)
  qed
next
  case nm: False
  show ?thesis
  proof (cases "test headRe (fst cn)")
    case True
    obtain pre m post ls where
      "replaceFirst headRe (\<lambda>m ls. m @ [0x0A, 0x20, 0x20] @ canonMeta) (fst cn) =
         pre @ (m @ [0x0A, 0x20, 0x20] @ canonMeta) @ post"
      using True by (rule replaceFirst_shape)
    then have "replaceFirst headRe (\<lambda>m ls. m @ [0x0A, 0x20, 0x20] @ canonMeta) (fst cn) =
         (pre @ m @ [0x0A, 0x20, 0x20]) @ canonMeta @ post" by simp
    with nm True show ?thesis
      by (simp only: repairMeta_def Let_def test_canonMeta fst_conv simp_thms if_True if_False)
  next
    case False
    with nm show ?thesis by (simp add: repairMeta_def Let_def test_canonMeta)
  qed
qed

lemma repairMeta_id:
  "test metaCharsetRe (fst cn) \<Longrightarrow> test utf8MetaRe (fst cn) \<Longrightarrow> repairMeta cn = cn"
  by (simp add: repairMeta_def Let_def)

lemma closer_fits:
  "fits bodyRe p (str ''</body>'') [7]" "fits htmlRe p (str ''</html>'') [7]"
  by (simp_all add: bodyRe_def htmlRe_def str_def canon_def)

lemma closeWith_keeps:
  "list_all plain re' \<Longrightarrow> test re' (fst cn) \<Longrightarrow> test re' (fst (closeWith re tag cn))"
  by (simp add: closeWith_def test_append)

lemma closeWith_body: "test bodyRe (fst (closeWith bodyRe (str ''</body>'') cn))"
  using test_intro [OF plain_res(4) closer_fits(1), of "fst cn @ [0x0A]" "[]"]
  by (simp add: closeWith_def)

lemma closeWith_html: "test htmlRe (fst (closeWith htmlRe (str ''</html>'') cn))"
  using test_intro [OF plain_res(5) closer_fits(2), of "fst cn @ [0x0A]" "[]"]
  by (simp add: closeWith_def)

lemma closeWith_id: "test re (fst cn) \<Longrightarrow> closeWith re tag cn = cn"
  by (simp add: closeWith_def)

lemma repairClosers_tests:
  "test bodyRe (fst (repairClosers cn)) \<and> test htmlRe (fst (repairClosers cn))"
  by (simp add: repairClosers_def closeWith_body closeWith_html closeWith_keeps)

lemma repairClosers_keeps:
  "list_all plain re' \<Longrightarrow> test re' (fst cn) \<Longrightarrow> test re' (fst (repairClosers cn))"
  by (simp add: repairClosers_def closeWith_keeps)

lemma repairClosers_id:
  "test bodyRe (fst cn) \<Longrightarrow> test htmlRe (fst cn) \<Longrightarrow> repairClosers cn = cn"
  by (simp add: repairClosers_def closeWith_id)

lemma repair_compliant: "compliant (fst (repairClosers (repairMeta cn)))"
  using repairMeta_tests [of cn] repairClosers_tests [of "repairMeta cn"]
  by (simp add: compliant_def repairClosers_keeps)

lemma repair_id: "compliant (fst cn) \<Longrightarrow> repairClosers (repairMeta cn) = cn"
  by (simp add: compliant_def repairMeta_id repairClosers_id)

lemma steps1to5_compliant: "compliant (fst (snd (steps1to5 lib buffer forceEnc)))"
  by (simp add: steps1to5_def Let_def repair_compliant)

section \<open>UTF-8: reading back what was written\<close>

lemma step1: "c < 0x80 \<Longrightarrow> utf8Step (c # rest) = (c, 1)"
  by simp

lemma step2:
  assumes "0x80 \<le> c" "c < 0x800"
  shows "utf8Step ((0xC0 + c div 0x40) # (0x80 + c mod 0x40) # rest) = (c, 2)"
proof -
  have a: "0xC2 \<le> 0xC0 + c div 0x40" "0xC0 + c div 0x40 \<le> 0xDF" "\<not> 0xC0 + c div 0x40 < 0x80"
    using assms by arith+
  have b: "cont (0x80 + c mod 0x40)" by (simp add: cont_def) 
  have v: "(0xC0 + c div 0x40 - 0xC0) * 0x40 + (0x80 + c mod 0x40 - 0x80) = c" by simp
  show ?thesis using a b v by simp
qed

lemma digits3:
  fixes c :: nat
  obtains q2 r2 r where "c div 0x1000 = q2" "(c div 0x40) mod 0x40 = r2" "c mod 0x40 = r"
    "c = q2 * 0x1000 + r2 * 0x40 + r" "r2 < 0x40" "r < 0x40"
proof -
  define q where "q = c div 0x40"
  define r where "r = c mod 0x40"
  define q2 where "q2 = q div 0x40"
  define r2 where "r2 = q mod 0x40"
  have c: "c = q * 0x40 + r" by (simp add: q_def r_def)
  have q: "q = q2 * 0x40 + r2" by (simp add: q2_def r2_def)
  have e: "c div 0x1000 = q2" by (simp add: q2_def q_def div_mult2_eq [symmetric])
  have c': "c = q2 * 0x1000 + r2 * 0x40 + r" unfolding c q by simp
  show ?thesis
  proof (rule that [of q2 r2 r])
    show "c div 0x1000 = q2" by (rule e)
    show "(c div 0x40) mod 0x40 = r2" by (simp add: r2_def q_def)
    show "c mod 0x40 = r" by (simp add: r_def)
    show "c = q2 * 0x1000 + r2 * 0x40 + r" by (rule c')
    show "r2 < 0x40" by (simp add: r2_def)
    show "r < 0x40" by (simp add: r_def)
  qed
qed

lemma digits4:
  fixes c :: nat
  obtains q3 r3 r2 r where "c div 0x40000 = q3" "(c div 0x1000) mod 0x40 = r3"
    "(c div 0x40) mod 0x40 = r2" "c mod 0x40 = r"
    "c = q3 * 0x40000 + r3 * 0x1000 + r2 * 0x40 + r" "r3 < 0x40" "r2 < 0x40" "r < 0x40"
proof -
  obtain q2 r2 r where d: "c div 0x1000 = q2" "(c div 0x40) mod 0x40 = r2" "c mod 0x40 = r"
    and c: "c = q2 * 0x1000 + r2 * 0x40 + r" and b: "r2 < 0x40" "r < 0x40"
    by (rule digits3)
  define q3 where "q3 = q2 div 0x40"
  define r3 where "r3 = q2 mod 0x40"
  have q: "q2 = q3 * 0x40 + r3" by (simp add: q3_def r3_def)
  have e: "c div 0x40000 = q3"
    using d(1) by (simp add: q3_def div_mult2_eq [symmetric])
  have c': "c = q3 * 0x40000 + r3 * 0x1000 + r2 * 0x40 + r" unfolding c q by simp
  show ?thesis
  proof (rule that [of q3 r3 r2 r])
    show "c div 0x40000 = q3" by (rule e)
    show "(c div 0x1000) mod 0x40 = r3" by (simp add: d(1) r3_def)
    show "(c div 0x40) mod 0x40 = r2" by (rule d(2))
    show "c mod 0x40 = r" by (rule d(3))
    show "c = q3 * 0x40000 + r3 * 0x1000 + r2 * 0x40 + r" by (rule c')
    show "r3 < 0x40" by (simp add: r3_def)
    show "r2 < 0x40" by (rule b(1))
    show "r < 0x40" by (rule b(2))
  qed
qed

lemma step3:
  assumes "0x800 \<le> c" "c < 0x10000" "\<not> isHigh c" "\<not> isLow c"
  shows "utf8Step ((0xE0 + c div 0x1000) # (0x80 + (c div 0x40) mod 0x40) # (0x80 + c mod 0x40) # rest)
         = (c, 3)"
proof -
  obtain q2 r2 r where d: "c div 0x1000 = q2" "(c div 0x40) mod 0x40 = r2" "c mod 0x40 = r"
    and c: "c = q2 * 0x1000 + r2 * 0x40 + r" and b: "r2 < 0x40" "r < 0x40"
    by (rule digits3)
  have q2: "q2 \<le> 15" using assms(2) c by linarith
  have e0: "q2 = 0 \<Longrightarrow> 0x20 \<le> r2" using assms(1) c b by linarith
  have ed: "q2 = 13 \<Longrightarrow> r2 < 0x20" using assms c b unfolding isHigh_def isLow_def by linarith
  have s3: "second3 (0xE0 + q2) (0x80 + r2)"
    using e0 ed b unfolding second3_def cont_def by auto
  have c2: "cont (0x80 + r)" using b by (simp add: cont_def)
  have v: "utf8Step ((0xE0 + q2) # (0x80 + r2) # (0x80 + r) # rest) =
             (q2 * 0x1000 + r2 * 0x40 + r, 3)"
    using q2 s3 c2 by simp
  show ?thesis unfolding d v using c by simp
qed

lemma stepFFFD: "utf8Step (0xEF # 0xBF # 0xBD # rest) = (0xFFFD, 3)"
  by (simp add: second3_def cont_def)

lemma step4:
  assumes "isHigh c" "isLow d" "cp = 0x10000 + (c - 0xD800) * 0x400 + (d - 0xDC00)"
  shows "utf8Step ((0xF0 + cp div 0x40000) # (0x80 + (cp div 0x1000) mod 0x40) #
           (0x80 + (cp div 0x40) mod 0x40) # (0x80 + cp mod 0x40) # rest) = (cp, 4)"
proof -
  obtain q3 r3 r2 r where d: "cp div 0x40000 = q3" "(cp div 0x1000) mod 0x40 = r3"
    "(cp div 0x40) mod 0x40 = r2" "cp mod 0x40 = r"
    and c: "cp = q3 * 0x40000 + r3 * 0x1000 + r2 * 0x40 + r"
    and b: "r3 < 0x40" "r2 < 0x40" "r < 0x40"
    by (rule digits4)
  have rg: "0x10000 \<le> cp" "cp < 0x110000"
    using assms unfolding isHigh_def isLow_def by linarith+
  have q3: "q3 \<le> 4" using rg(2) c by linarith
  have e0: "q3 = 0 \<Longrightarrow> 0x10 \<le> r3" using rg(1) c b by linarith
  have e4: "q3 = 4 \<Longrightarrow> r3 < 0x10" using rg(2) c b by linarith
  have s4: "second4 (0xF0 + q3) (0x80 + r3)"
    using e0 e4 b unfolding second4_def cont_def by auto
  have c2: "cont (0x80 + r2)" "cont (0x80 + r)" using b by (simp_all add: cont_def)
  have v: "utf8Step ((0xF0 + q3) # (0x80 + r3) # (0x80 + r2) # (0x80 + r) # rest) =
             (q3 * 0x40000 + r3 * 0x1000 + r2 * 0x40 + r, 4)"
    using q3 s4 c2 by simp
  show ?thesis unfolding d v using c by simp
qed

lemma toUtf16_pair:
  assumes "isHigh c" "isLow d"
  shows "toUtf16 (0x10000 + (c - 0xD800) * 0x400 + (d - 0xDC00)) = [of_nat c, of_nat d]"
proof -
  define x where "x = c - 0xD800"
  define y where "y = d - 0xDC00"
  have xy: "c = 0xD800 + x" "d = 0xDC00 + y" "y < 0x400"
    using assms by (auto simp: x_def y_def isHigh_def isLow_def)
  have "(x * 0x400 + y) div 0x400 = x" "(x * 0x400 + y) mod 0x400 = y"
    using xy(3) by simp_all
  then show ?thesis unfolding xy(1,2) by (simp add: toUtf16_def)
qed

lemma decode_unit:
  assumes "c < 0x10000"
  shows "decodeUtf8 (encUnit c @ rest) = of_nat (fixup c) # decodeUtf8 rest"
proof -
  consider "c < 0x80" | "0x80 \<le> c" "c < 0x800" | "0x800 \<le> c" "isHigh c \<or> isLow c"
    | "0x800 \<le> c" "\<not> isHigh c" "\<not> isLow c"
    by linarith
  then show ?thesis
  proof cases
    case 1
    then have "fixup c = c" by (simp add: fixup_def isHigh_def isLow_def)
    with 1 show ?thesis by (simp add: encUnit_def toUtf16_def)
  next
    case 2
    then have "fixup c = c" by (simp add: fixup_def isHigh_def isLow_def)
    with 2 show ?thesis
      by (simp add: encUnit_def step2 toUtf16_def del: utf8Step.simps)
  next
    case 3
    then have "fixup c = 0xFFFD" by (simp add: fixup_def)
    with 3 show ?thesis
      by (simp add: encUnit_def stepFFFD toUtf16_def del: utf8Step.simps)
  next
    case 4
    then have "fixup c = c" by (simp add: fixup_def)
    with 4 assms show ?thesis
      by (simp add: encUnit_def step3 toUtf16_def del: utf8Step.simps)
  qed
qed

lemma decode_pair:
  assumes "isHigh c" "isLow d"
  shows "decodeUtf8 (encPair c d @ rest) = of_nat c # of_nat d # decodeUtf8 rest"
  using step4 [OF assms refl] toUtf16_pair [OF assms]
  by (simp add: encPair_def Let_def del: utf8Step.simps)

lemma decode_encode:
  "\<forall>u\<in>set us. u < 0x10000 \<Longrightarrow> decodeUtf8 (encodeNat us @ rest) = map of_nat (sanitize us) @ decodeUtf8 rest"
proof (induction us rule: encodeNat.induct)
  case 1
  show ?case by simp
next
  case (2 c)
  then show ?case by (simp add: decode_unit)
next
  case (3 c d cs)
  then show ?case by (simp add: decode_unit decode_pair)
qed

lemma encUnit_bytes: "c < 0x10000 \<Longrightarrow> \<forall>b\<in>set (encUnit c). b < 256"
  by (auto simp: encUnit_def)

lemma encPair_bytes:
  assumes "isHigh c" "isLow d"
  shows "\<forall>b\<in>set (encPair c d). b < 256"
proof -
  have "0x10000 + (c - 0xD800) * 0x400 + (d - 0xDC00) < 0x110000"
    using assms unfolding isHigh_def isLow_def by linarith
  then show ?thesis by (auto simp: encPair_def Let_def)
qed

lemma encodeNat_bytes: "\<forall>u\<in>set us. u < 0x10000 \<Longrightarrow> \<forall>b\<in>set (encodeNat us). b < 256"
proof (induction us rule: encodeNat.induct)
  case 1
  show ?case by simp
next
  case (2 c)
  then show ?case using encUnit_bytes [of c] by simp
next
  case (3 c d cs)
  then show ?case using encUnit_bytes [of c] encPair_bytes [of c d] by auto
qed

lemma roundtrip: "toStringUtf8 (encodeUtf8 s) = map of_nat (sanitize (map unat s))"
proof -
  have u: "\<forall>u\<in>set (map unat s). u < 0x10000"
    proof
    fix u assume "u \<in> set (map unat s)"
    then obtain a :: cu where "u = unat a" by auto
    moreover have "unat a < 2 ^ LENGTH(16)" by (rule unsigned_less)
    ultimately show "u < 0x10000" by simp
  qed
  from u have "\<forall>b\<in>set (encodeNat (map unat s)). b < 256" by (rule encodeNat_bytes)
  then have "map unat (map of_nat (encodeNat (map unat s)) :: byte list) = encodeNat (map unat s)"
    by (auto simp: map_idI unat_of_nat)
  then show ?thesis
    using decode_encode [OF u, of "[]"] by (simp add: toStringUtf8_def encodeUtf8_def)
qed

section \<open>The tests do not look beyond ASCII\<close>


lemma canon_high: "0x80 \<le> c \<Longrightarrow> canon c = c"
  unfolding canon_def by (auto simp: word_le_nat_alt)

lemma canon_low: "p < 0x80 \<Longrightarrow> canon p < 0x80"
  unfolding canon_def by (auto simp: word_le_nat_alt word_less_nat_alt unat_sub)

lemma canon_skel: "p < 0x80 \<Longrightarrow> skel a b \<Longrightarrow> (canon p = canon a) = (canon p = canon b)"
  using canon_low [of p] canon_high [of a] canon_high [of b]
  by (auto simp: skel_def)

lemma eq_skel: "p < 0x80 \<Longrightarrow> skel a b \<Longrightarrow> (p = a) = (p = b)"
  by (auto simp: skel_def)

lemma litMatch_skel:
  "\<forall>p\<in>set l. p < 0x80 \<Longrightarrow> list_all2 skel s s' \<Longrightarrow> litMatch ic l s = litMatch ic l s'"
proof (induction ic l s arbitrary: s' rule: litMatch.induct)
  case (3 ic p ps c cs)
  from "3.prems"(2) obtain c' cs' where s': "s' = c' # cs'" "skel c c'" "list_all2 skel cs cs'"
    by (auto simp: list_all2_Cons1)
  have "litMatch ic ps cs = litMatch ic ps cs'" using 3 s' by simp
  moreover have "p < 0x80" using "3.prems"(1) by simp
  then have "(canon p = canon c) = (canon p = canon c')" "(p = c) = (p = c')"
    using s'(2) by (rule canon_skel, rule eq_skel)
  ultimately show ?case using s' by simp
qed (auto simp: list_all2_Cons1)

lemma takeWhile_skel:
  assumes "\<forall>a b. skel a b \<longrightarrow> cls a = cls b" and "list_all2 skel s s'"
  shows "length (takeWhile cls s) = length (takeWhile cls s')"
  using assms(2) assms(1) by (induction rule: list_all2_induct) auto

lemma itemOk_skel:
  "asciiItem it \<Longrightarrow> list_all2 skel s s' \<Longrightarrow> itemOk it p s k \<Longrightarrow> itemOk it p' s' k"
proof (cases it)
  case (Lit ic l)
  assume "asciiItem it" "list_all2 skel s s'" "itemOk it p s k"
  with Lit litMatch_skel [of l s s' ic] show ?thesis by simp
next
  case (Rep g cls lo hi)
  assume "asciiItem it" "list_all2 skel s s'" "itemOk it p s k"
  with Rep takeWhile_skel [of cls s s'] show ?thesis by simp
qed auto

lemma fits_skel:
  "list_all asciiItem re \<Longrightarrow> list_all2 skel s s' \<Longrightarrow> fits re p s ls \<Longrightarrow> fits re p' s' ls"
proof (induction re p s ls arbitrary: s' p' rule: fits.induct)
  case (3 it r prev s k ks)
  then have ok: "itemOk it p' s' k" by (auto intro: itemOk_skel)
  have "list_all2 skel (drop k s) (drop k s')" using "3.prems"(2) by (rule list_all2_dropI)
  then have "fits r (prevAfter p' (take k s')) (drop k s') ks" using 3 by simp
  with ok show ?case by simp
qed auto

lemma asciiItem_plain: "asciiItem it \<Longrightarrow> plain it"
  by (cases it) auto

lemma test_skel:
  assumes re: "list_all asciiItem re" and sk: "list_all2 skel s s'" and t: "test re s"
  shows "test re s'"
proof -
  from t obtain pre ls t where s: "s = pre @ t" and f: "fits re (prevAfter None pre) t ls"
    by (rule test_elim)
  have len: "length s = length s'" using sk by (rule list_all2_lengthD)
  have s': "s' = take (length pre) s' @ drop (length pre) s'" by simp
  have "list_all2 skel (drop (length pre) s) (drop (length pre) s')"
    using sk by (rule list_all2_dropI)
  then have "list_all2 skel t (drop (length pre) s')" using s by simp
  then have "fits re None (drop (length pre) s') ls" using re f by (blast intro: fits_skel)
  moreover have "list_all plain re" using re by (auto simp: list_all_iff intro: asciiItem_plain)
  ultimately have "test re (take (length pre) s' @ drop (length pre) s' @ [])"
    by (blast intro: test_intro)
  then show ?thesis by simp
qed

lemma ascii_res:
  "list_all asciiItem metaCharsetRe" "list_all asciiItem utf8MetaRe"
  "list_all asciiItem bodyRe" "list_all asciiItem htmlRe"
  by (auto simp: metaCharsetRe_def utf8MetaRe_def bodyRe_def htmlRe_def str_def skel_def
      notGt_def quote_def)

lemma compliant_skel: "list_all2 skel s s' \<Longrightarrow> compliant s \<Longrightarrow> compliant s'"
  unfolding compliant_def using ascii_res by (blast intro: test_skel)

lemma skel_fixup: "skel a (of_nat (fixup (unat a)))"
proof (cases "isHigh (unat a) \<or> isLow (unat a)")
  case True
  then have "0x80 \<le> unat a" by (auto simp: isHigh_def isLow_def)
  then have "0x80 \<le> a" by (simp add: word_le_nat_alt)
  with True show ?thesis by (simp add: skel_def fixup_def)
next
  case False
  then show ?thesis by (simp add: skel_def fixup_def)
qed

lemma skel_sanitize: "list_all2 skel s (map of_nat (sanitize (map unat s)))"
proof (induction s rule: induct_list012)
  case 1
  show ?case by simp
next
  case (2 a)
  show ?case by (simp add: skel_fixup)
next
  case (3 a b cs)
  have "skel a a" "skel b b" by (simp_all add: skel_def)
  with 3 show ?case by (simp add: skel_fixup)
qed

lemma compliant_roundtrip: "compliant s \<Longrightarrow> compliant (toStringUtf8 (encodeUtf8 s))"
  unfolding roundtrip using skel_sanitize by (rule compliant_skel)

section \<open>The stored file after a call\<close>



lemma repairMeta_flag: "snd (repairMeta cn) = False \<Longrightarrow> repairMeta cn = cn"
  by (auto simp: repairMeta_def Let_def split: if_splits)

lemma closeWith_flag: "snd (closeWith re tag cn) = False \<Longrightarrow> closeWith re tag cn = cn"
  by (auto simp: closeWith_def split: if_splits)

lemma repair_flag:
  assumes "snd (repairClosers (repairMeta cn)) = False"
  shows "repairClosers (repairMeta cn) = cn"
proof -
  let ?b = "closeWith bodyRe (str ''</body>'') (repairMeta cn)"
  from assms have 1: "closeWith htmlRe (str ''</html>'') ?b = ?b"
    unfolding repairClosers_def by (rule closeWith_flag)
  with assms have "snd ?b = False" by (simp add: repairClosers_def)
  then have 2: "?b = repairMeta cn" by (rule closeWith_flag)
  with assms 1 have "snd (repairMeta cn) = False" by (simp add: repairClosers_def)
  then have "repairMeta cn = cn" by (rule repairMeta_flag)
  with 1 2 show ?thesis by (simp add: repairClosers_def)
qed

lemma transcode_flag: "snd (transcode lib buffer e) = False \<Longrightarrow>
    transcode lib buffer e = (toStringUtf8 buffer, False)"
  by (auto simp: transcode_def split: option.splits if_splits)

lemma steps1to5_unmodified:
  assumes "steps1to5 lib buffer forceEnc = (e, content, False)"
  shows "content = toStringUtf8 buffer"
proof -
  let ?t = "transcode lib buffer (detectEnc lib buffer forceEnc)"
  from assms have r: "repairClosers (repairMeta ?t) = (content, False)"
    by (auto simp: steps1to5_def Let_def)
  then have "repairClosers (repairMeta ?t) = ?t" using repair_flag [of ?t] by simp
  with r have "?t = (content, False)" by simp
  then show ?thesis using transcode_flag [of lib buffer "detectEnc lib buffer forceEnc"] by simp
qed

lemma stored_compliant:
  assumes "fixHtmlEncodingIfNeeded lib w p forceEnc = Inr (r, w')"
  obtains stored where "files w' p = Some stored" and "compliant (toStringUtf8 stored)"
proof -
  from assms obtain buffer where b: "files w p = Some buffer"
    by (auto simp: fixHtmlEncodingIfNeeded_def split: option.splits)
  obtain e content nf where n: "steps1to5 lib buffer forceEnc = (e, content, nf)"
    by (cases "steps1to5 lib buffer forceEnc") auto
  have c: "compliant content" using steps1to5_compliant [of lib buffer forceEnc] n by simp
  show ?thesis
  proof (cases nf)
    case True
    with assms b n have "files w' p = Some (encodeUtf8 content)"
      by (auto simp: fixHtmlEncodingIfNeeded_def)
    moreover have "compliant (toStringUtf8 (encodeUtf8 content))"
      using c by (rule compliant_roundtrip)
    ultimately show ?thesis by (rule that)
  next
    case False
    with assms b n have "files w' p = Some buffer"
      by (auto simp: fixHtmlEncodingIfNeeded_def)
    moreover have "content = toStringUtf8 buffer"
      using n False by (auto dest: steps1to5_unmodified)
    ultimately show ?thesis using c that by simp
  qed
qed

lemma compliant_unmodified:
  assumes b: "files w p = Some buffer"
    and f: "\<not> truthy forceEnc"
    and e: "\<not> hasEsc buffer"
    and l: "utf8Label (detect lib buffer)"
    and c: "compliant (toStringUtf8 buffer)"
  shows "fixHtmlEncodingIfNeeded lib w p forceEnc =
           Inr (\<lparr>needFix = False, enc = jsOr (detect lib buffer) None\<rparr>,
                w\<lparr>trace := trace w @ [ConsoleLog (Skipped p (detect lib buffer))]\<rparr>)"
proof -
  have d: "detectEnc lib buffer forceEnc = detect lib buffer"
    using f e by (simp add: detectEnc_def Let_def jsOr_def)
  have t: "transcode lib buffer (detect lib buffer) = (toStringUtf8 buffer, False)"
    using l by (auto simp: transcode_def utf8Label_def split: option.splits)
  have "steps1to5 lib buffer forceEnc = (detect lib buffer, toStringUtf8 buffer, False)"
    using d t c by (simp add: steps1to5_def Let_def repair_id)
  then show ?thesis using b by (simp add: fixHtmlEncodingIfNeeded_def)
qed

text \<open>
  A second call that reads the stored bytes as UTF-8 (no JIS escape pattern in them, and
  the label \<open>UTF8\<close> or none from the detector) finds them compliant and skips.
\<close>

lemma second_call_skips:
  assumes "fixHtmlEncodingIfNeeded lib w p None = Inr (r1, w1)"
    and "files w1 p = Some stored"
    and "\<not> hasEsc stored"
    and "utf8Label (detect lib stored)"
  shows "case fixHtmlEncodingIfNeeded lib w1 p None of
           Inl e \<Rightarrow> False
         | Inr (r2, w2) \<Rightarrow> needFix r2 = False \<and> files w2 = files w1"
proof -
  from assms(1) obtain stored' where "files w1 p = Some stored'" "compliant (toStringUtf8 stored')"
    by (rule stored_compliant)
  with assms(2) have c: "compliant (toStringUtf8 stored)" by simp
  have "\<not> truthy None" by (simp add: truthy_def)
  from compliant_unmodified [OF assms(2) this assms(3,4) c] show ?thesis by simp
qed

lemma litMatch_split: "litMatch False pat s \<Longrightarrow> \<exists>b. s = pat @ b"
  by (induction "False" pat s rule: litMatch.induct) auto

lemma strIncludes_split: "strIncludes s pat \<Longrightarrow> \<exists>a b. s = a @ pat @ b"
proof (induction s)
  case Nil
  then show ?case by simp
next
  case (Cons c cs)
  show ?case
  proof (cases "litMatch False pat (c # cs)")
    case True
    then obtain b where "c # cs = pat @ b" by (auto dest: litMatch_split)
    then have "c # cs = [] @ pat @ b" by simp
    then show ?thesis by blast
  next
    case False
    with Cons obtain a b where "cs = a @ pat @ b" by auto
    then have "c # cs = (c # a) @ pat @ b" by simp
    then show ?thesis by blast
  qed
qed

lemma includes_compliant:
  assumes "strIncludes s canonMeta" "strIncludes s (str ''</body>'')" "strIncludes s (str ''</html>'')"
  shows "compliant s"
proof -
  from assms(1) obtain a b where "s = a @ canonMeta @ b" by (auto dest: strIncludes_split)
  then have m: "test metaCharsetRe s" "test utf8MetaRe s" by (simp_all add: test_canonMeta)
  from assms(2) obtain a b where "s = a @ str ''</body>'' @ b" by (auto dest: strIncludes_split)
  then have bd: "test bodyRe s" using test_intro [OF plain_res(4) closer_fits(1)] by simp
  from assms(3) obtain a b where "s = a @ str ''</html>'' @ b" by (auto dest: strIncludes_split)
  then have h: "test htmlRe s" using test_intro [OF plain_res(5) closer_fits(2)] by simp
  show ?thesis using m bd h by (simp add: compliant_def)
qed

text \<open>
  C5, amended. A file whose bytes have no JIS escape pattern, which the detector labels
  \<open>UTF8\<close> (in any case) or does not label, and whose text read as UTF-8 contains
  \<open><meta charset="UTF-8">\<close>, \<open></body>\<close> and \<open></html>\<close>, is left as it is: the flag returned is
  unset, nothing is written and one line is logged.
\<close>

theorem compliant_untouched:
  assumes "files w p = Some buffer"
    and "\<not> hasEsc buffer"
    and "utf8Label (detect lib buffer)"
    and "strIncludes (toStringUtf8 buffer) canonMeta"
    and "strIncludes (toStringUtf8 buffer) (str ''</body>'')"
    and "strIncludes (toStringUtf8 buffer) (str ''</html>'')"
  shows "fixHtmlEncodingIfNeeded lib w p None =
           Inr (\<lparr>needFix = False, enc = jsOr (detect lib buffer) None\<rparr>,
                w\<lparr>trace := trace w @ [ConsoleLog (Skipped p (detect lib buffer))]\<rparr>)"
proof -
  have c: "compliant (toStringUtf8 buffer)" using assms(4-6) by (rule includes_compliant)
  have "\<not> truthy None" by (simp add: truthy_def)
  from compliant_unmodified [OF assms(1) this assms(2,3) c] show ?thesis .
qed

section \<open>The example pages\<close>

lemma fix_outcome:
  assumes "files w p = Some buffer"
  shows "case fixHtmlEncodingIfNeeded lib w p forceEnc of
           Inl e \<Rightarrow> False
         | Inr (r, w') \<Rightarrow>
             needFix r = snd (snd (steps1to5 lib buffer forceEnc)) \<and>
             enc r = jsOr (fst (steps1to5 lib buffer forceEnc)) None \<and>
             files w' p =
               Some (if needFix r then encodeUtf8 (fst (snd (steps1to5 lib buffer forceEnc)))
                     else buffer)"
  using assms by (auto simp: fixHtmlEncodingIfNeeded_def split: prod.splits)

lemma plainPage_noEsc: "\<not> hasEsc plainPage"
  by (simp add: hasEsc_def plainPage_def asciiBytes_def)

lemma plainPage_binary: "toStringBinary plainPage = plainText"
  by (simp add: toStringBinary_def plainPage_def asciiBytes_def plainText_def canonMeta_def str_def)

lemma plainPage_utf8: "toStringUtf8 plainPage = plainText"
  by (simp add: toStringUtf8_def plainPage_def asciiBytes_def toUtf16_def plainText_def
      canonMeta_def str_def)

lemma plainText_encoded: "encodeUtf8 plainText = plainPage"
  by (simp add: encodeUtf8_def plainPage_def asciiBytes_def encUnit_def plainText_def
      canonMeta_def str_def isHigh_def isLow_def)

lemma plainText_compliant: "compliant plainText"
  unfolding compliant_def by code_simp

lemma ascii_not_utf8: "toUpperCase ''ASCII'' \<noteq> ''UTF8''"
  by (simp add: toUpperCase_def)

lemma plain_steps_ascii:
  "steps1to5 (stubLib (Some ''ASCII'')) plainPage None = (Some ''ASCII'', plainText, True)"
  using plainPage_noEsc ascii_not_utf8 plainText_compliant
  by (simp add: steps1to5_def detectEnc_def Let_def jsOr_def truthy_def stubLib_def
      transcode_def plainPage_binary repair_id)

lemma utf8_is_utf8: "toUpperCase ''UTF8'' = ''UTF8''"
  by (simp add: toUpperCase_def toUpperChar_def)

lemma repair_keeps_flag: "snd cn \<Longrightarrow> snd (repairClosers (repairMeta cn))"
  using repair_flag [of cn] by (cases "snd (repairClosers (repairMeta cn))") auto

lemma escPage_hasEsc: "hasEsc escPage"
  by (simp add: hasEsc_def escPage_def asciiBytes_def toStringBinary_def str_def)

lemma escPage_utf8: "toStringUtf8 escPage = escText"
  by (simp add: toStringUtf8_def escPage_def asciiBytes_def toUtf16_def escText_def
      canonMeta_def str_def)

lemma escText_encoded: "encodeUtf8 escText = escPage"
  by (simp add: encodeUtf8_def escPage_def asciiBytes_def encUnit_def escText_def
      canonMeta_def str_def isHigh_def isLow_def)

lemma escText_includes:
  "strIncludes escText canonMeta" "strIncludes escText (str ''</body>'')"
  "strIncludes escText (str ''</html>'')"
  using strIncludes_mid [of "[]" canonMeta "[0x1B] @ str ''(B</body></html>''"]
    strIncludes_mid [of "canonMeta @ [0x1B] @ str ''(B''" "str ''</body>''" "str ''</html>''"]
    strIncludes_mid [of "canonMeta @ [0x1B] @ str ''(B</body>''" "str ''</html>''" "[]"]
  by (simp_all add: escText_def str_def)

lemma esc_steps:
  "fst (steps1to5 (stubLib (Some ''UTF8'')) escPage None) = Some ''ISO-2022-JP'' \<and>
   snd (snd (steps1to5 (stubLib (Some ''UTF8'')) escPage None))"
  using escPage_hasEsc
  by (simp add: steps1to5_def detectEnc_def Let_def truthy_def transcode_def toUpperCase_def
      toUpperChar_def repair_keeps_flag)

text \<open>
  C5 as stated fails: a compliant UTF-8 page with \<open>ESC ( B\<close> in its text (as terminal
  output pasted into a page has) is taken for ISO-2022-JP and rewritten, whatever the
  detector says.
\<close>

theorem compliant_untouched_counterexample:
  "encodeUtf8 (toStringUtf8 escPage) = escPage \<and>
   strIncludes (toStringUtf8 escPage) canonMeta \<and>
   strIncludes (toStringUtf8 escPage) (str ''</body>'') \<and>
   strIncludes (toStringUtf8 escPage) (str ''</html>'') \<and>
   (case fixHtmlEncodingIfNeeded (stubLib (Some ''UTF8'')) (oneFile ''a.html'' escPage) ''a.html'' None of
      Inl e \<Rightarrow> False
    | Inr (r, w') \<Rightarrow> needFix r \<and> enc r = Some ''ISO-2022-JP'')"
proof -
  have f: "files (oneFile ''a.html'' escPage) ''a.html'' = Some escPage"
    by (simp add: oneFile_def)
  have "case fixHtmlEncodingIfNeeded (stubLib (Some ''UTF8'')) (oneFile ''a.html'' escPage) ''a.html'' None of
      Inl e \<Rightarrow> False
    | Inr (r, w') \<Rightarrow> needFix r \<and> enc r = Some ''ISO-2022-JP''"
    using fix_outcome [OF f, of "stubLib (Some ''UTF8'')" None] esc_steps
    by (auto simp: jsOr_def truthy_def split: sum.splits)
  then show ?thesis by (simp add: escPage_utf8 escText_encoded escText_includes)
qed

text \<open>
  C1. The library labels 7-bit text \<open>ASCII\<close>, and step 3 converts whatever is not
  labelled \<open>UTF8\<close>. A page in ASCII that already has the declaration and both closing
  tags is therefore converted, written back byte for byte and reported as fixed, on the
  first call and again on the second: the second call does not return \<open>needFix = false\<close>.
  The routine is documented to rewrite only when necessary and has a branch that skips.
\<close>

theorem ascii_page_rewritten_every_call:
  "compliant (toStringUtf8 plainPage) \<and>
   (case fixHtmlEncodingIfNeeded (stubLib (Some ''ASCII'')) (oneFile ''a.html'' plainPage) ''a.html'' None of
      Inl e \<Rightarrow> False
    | Inr (r1, w1) \<Rightarrow>
        needFix r1 \<and> files w1 ''a.html'' = Some plainPage \<and>
        (case fixHtmlEncodingIfNeeded (stubLib (Some ''ASCII'')) w1 ''a.html'' None of
           Inl e \<Rightarrow> False
         | Inr (r2, w2) \<Rightarrow>
             needFix r2 \<and> files w2 ''a.html'' = Some plainPage \<and>
             trace w2 =
               [WriteFile ''a.html'' plainPage, ConsoleLog (Fixed ''a.html'' (Some ''ASCII'')),
                WriteFile ''a.html'' plainPage, ConsoleLog (Fixed ''a.html'' (Some ''ASCII''))]))"
proof -
  let ?L = "stubLib (Some ''ASCII'')"
  let ?fx = "[WriteFile ''a.html'' plainPage, ConsoleLog (Fixed ''a.html'' (Some ''ASCII''))]"
  let ?w1 = "\<lparr>files = Map.empty(''a.html'' \<mapsto> plainPage), trace = ?fx\<rparr>"
  let ?w2 = "\<lparr>files = Map.empty(''a.html'' \<mapsto> plainPage), trace = ?fx @ ?fx\<rparr>"
  have run1: "fixHtmlEncodingIfNeeded ?L (oneFile ''a.html'' plainPage) ''a.html'' None =
      Inr (\<lparr>needFix = True, enc = Some ''ASCII''\<rparr>, ?w1)"
    by (simp add: fixHtmlEncodingIfNeeded_def oneFile_def plain_steps_ascii plainText_encoded
        jsOr_def truthy_def)
  have run2: "fixHtmlEncodingIfNeeded ?L ?w1 ''a.html'' None =
      Inr (\<lparr>needFix = True, enc = Some ''ASCII''\<rparr>, ?w2)"
    by (simp add: fixHtmlEncodingIfNeeded_def plain_steps_ascii plainText_encoded
        jsOr_def truthy_def)
  show ?thesis by (simp add: run1 run2 plainPage_utf8 plainText_compliant)
qed

lemma twoMeta_noEsc: "\<not> hasEsc twoMetaPage"
  by (simp add: hasEsc_def twoMetaPage_def asciiBytes_def)

lemma twoMeta_utf8: "toStringUtf8 twoMetaPage = twoMetaText"
  by (simp add: toStringUtf8_def twoMetaPage_def asciiBytes_def toUtf16_def twoMetaText_def
      str_def)

lemma twoMeta_repair: "repairClosers (repairMeta (twoMetaText, False)) = (twoMetaFixed, True)"
  by code_simp

lemma twoMeta_steps:
  "steps1to5 (stubLib (Some ''UTF8'')) twoMetaPage None = (Some ''UTF8'', twoMetaFixed, True)"
  using twoMeta_noEsc utf8_is_utf8
  by (simp add: steps1to5_def detectEnc_def Let_def jsOr_def truthy_def stubLib_def
      transcode_def twoMeta_utf8 twoMeta_repair)




theorem compliant_untouched_witness:
  "fixHtmlEncodingIfNeeded (stubLib (Some ''UTF8'')) (oneFile ''a.html'' plainPage) ''a.html'' None =
     Inr (\<lparr>needFix = False, enc = Some ''UTF8''\<rparr>,
          (oneFile ''a.html'' plainPage)
            \<lparr>trace := [ConsoleLog (Skipped ''a.html'' (Some ''UTF8''))]\<rparr>)"
proof -
  have h1: "files (oneFile ''a.html'' plainPage) ''a.html'' = Some plainPage"
    by (simp add: oneFile_def)
  have h3: "utf8Label (detect (stubLib (Some ''UTF8'')) plainPage)"
    by (simp add: utf8Label_def stubLib_def utf8_is_utf8)
  have h4: "strIncludes (toStringUtf8 plainPage) canonMeta"
    using strIncludes_mid [of "[]" canonMeta "str ''</body></html>''"]
    by (simp add: plainPage_utf8 plainText_def)
  have h5: "strIncludes (toStringUtf8 plainPage) (str ''</body>'')"
    using strIncludes_mid [of canonMeta "str ''</body>''" "str ''</html>''"]
    by (simp add: plainPage_utf8 plainText_def str_def)
  have h6: "strIncludes (toStringUtf8 plainPage) (str ''</html>'')"
    using strIncludes_mid [of "canonMeta @ str ''</body>''" "str ''</html>''" "[]"]
    by (simp add: plainPage_utf8 plainText_def str_def)
  show ?thesis
    using compliant_untouched [OF h1 plainPage_noEsc h3 h4 h5 h6]
    by (simp add: stubLib_def jsOr_def truthy_def oneFile_def)
qed

section \<open>Counting the closing tags\<close>

lemma inner_Cons: "inner ps x y \<Longrightarrow> inner (p # ps) x y"
  by (cases ps) (auto simp: inner_def)

lemma litMatch_straddle:
  "litMatch True pat (s @ b) \<Longrightarrow> \<not> litMatch True pat s \<Longrightarrow> s \<noteq> [] \<Longrightarrow> b \<noteq> [] \<Longrightarrow>
     inner pat (last s) (hd b)"
proof (induction pat arbitrary: s)
  case Nil
  then show ?case by simp
next
  case (Cons p ps)
  from Cons.prems(3) obtain c cs where s: "s = c # cs" by (cases s) auto
  with Cons.prems have pc: "canon p = canon c" and m: "litMatch True ps (cs @ b)"
    and n: "\<not> litMatch True ps cs" by auto
  show ?case
  proof (cases cs)
    case Nil
    with n obtain q qs where ps: "ps = q # qs" by (cases ps) auto
    from Cons.prems(4) obtain y b' where b: "b = y # b'" by (cases b) auto
    with m ps Nil have "canon q = canon y" by simp
    with pc ps s Nil b show ?thesis by (simp add: inner_def)
  next
    case (Cons c' cs')
    then have "cs \<noteq> []" by simp
    from Cons.IH [OF m n this Cons.prems(4)] have "inner ps (last cs) (hd b)" .
    then have "inner (p # ps) (last cs) (hd b)" by (rule inner_Cons)
    with s Cons show ?thesis by simp
  qed
qed

lemma countOcc_append:
  assumes "a = [] \<or> b = [] \<or> \<not> inner pat (last a) (hd b)"
  shows "countOcc pat (a @ b) = countOcc pat a + countOcc pat b"
proof (cases "a = [] \<or> b = []")
  case True
  then show ?thesis by auto
next
  case False
  with assms have ni: "\<not> inner pat (last a) (hd b)" and b: "b \<noteq> []" and a: "a \<noteq> []" by auto
  from a ni show ?thesis
  proof (induction a)
    case Nil
    then show ?case by simp
  next
    case (Cons x a')
    have eq: "litMatch True pat ((x # a') @ b) = litMatch True pat (x # a')"
      using litMatch_straddle [of pat "x # a'" b] litMatch_append [of True pat "x # a'" b]
        Cons.prems(2) b by auto
    show ?case
    proof (cases a')
      case Nil
      with eq show ?thesis by simp
    next
      case (Cons y ys)
      with Cons.prems Cons.IH have "countOcc pat (a' @ b) = countOcc pat a' + countOcc pat b"
        by simp
      with eq show ?thesis by simp
    qed
  qed
qed

lemma canon_punct:
  assumes "p = 0x3C \<or> p = 0x3E" and "canon p = canon c"
  shows "c = p"
proof -
  have cp: "canon p = p" using assms(1) by (auto simp: canon_def)
  show ?thesis
  proof (cases "0x61 \<le> c \<and> c \<le> 0x7A")
    case True
    then have "0x61 \<le> unat c" "unat c \<le> 0x7A" by (simp_all add: word_le_nat_alt)
    then have "unat (c - 0x20) = unat c - 0x20" by (simp add: unat_sub word_le_nat_alt)
    moreover have "c - 0x20 = p" using True assms(2) cp by (simp add: canon_def)
    ultimately have "unat p = unat c - 0x20" by simp
    with \<open>0x61 \<le> unat c\<close> assms(1) show ?thesis by auto
  next
    case False
    with assms(2) cp show ?thesis by (simp add: canon_def)
  qed
qed

lemma fits5: "fits [i1, i2, i3, i4, i5] p s ls \<Longrightarrow> \<exists>a b c d e. ls = [a, b, c, d, e]"
  by (frule fits_length) (auto simp: length_Suc_conv)

lemma fits3: "fits [i1, i2, i3] p s ls \<Longrightarrow> \<exists>a b c. ls = [a, b, c]"
  by (frule fits_length) (auto simp: length_Suc_conv)

lemma litMatch_gt_hd: "litMatch True (str ''>'') s \<Longrightarrow> s \<noteq> [] \<and> hd s = 0x3E"
  by (cases s) (auto simp: str_def dest: canon_punct [rotated])

lemma litMatch_lt_hd: "litMatch True (0x3C # l) s \<Longrightarrow> s \<noteq> [] \<and> hd s = 0x3C"
  by (cases s) (auto dest: canon_punct [rotated])

lemma meta_match_shape:
  assumes "fits metaCharsetRe p t ls"
  shows "0 < sum_list ls \<and> hd t = 0x3C \<and> t ! (sum_list ls - 1) = 0x3E"
proof -
  from assms obtain a b c d e where ls: "ls = [a, b, c, d, e]"
    unfolding metaCharsetRe_def by (auto dest: fits5)
  with assms have a: "a = 5" "c = 7" "e = 1"
    and l1: "litMatch True (str ''<meta'') t"
    and l2: "litMatch True (str ''>'') (drop (a + b + c + d) t)"
    by (auto simp: metaCharsetRe_def str_def add.commute add.left_commute)
  from l1 have h: "hd t = 0x3C"
    using litMatch_lt_hd [of "str ''meta''" t] by (simp add: str_def)
  from l2 have d: "drop (a + b + c + d) t \<noteq> []" "hd (drop (a + b + c + d) t) = 0x3E"
    using litMatch_gt_hd by blast+
  then have "t ! (a + b + c + d) = 0x3E" by (simp add: hd_drop_conv_nth)
  moreover have "sum_list ls = Suc (a + b + c + d)" using ls a by simp
  ultimately show ?thesis using h by simp
qed

lemma head_match_shape:
  assumes "fits headRe p t ls"
  shows "0 < sum_list ls \<and> t ! (sum_list ls - 1) = 0x3E"
proof -
  from assms obtain a b c where ls: "ls = [a, b, c]"
    unfolding headRe_def by (auto dest: fits3)
  with assms have a: "a = 5" "c = 1"
    and l2: "litMatch True (str ''>'') (drop (a + b) t)"
    by (auto simp: headRe_def str_def add.commute)
  from l2 have d: "drop (a + b) t \<noteq> []" "hd (drop (a + b) t) = 0x3E"
    using litMatch_gt_hd by blast+
  then have "t ! (a + b) = 0x3E" by (simp add: hd_drop_conv_nth)
  moreover have "sum_list ls = Suc (a + b)" using ls a by simp
  ultimately show ?thesis by simp
qed

lemma closer_counts_body:
  "countOcc (str ''</body>'') canonMeta = 0"
  "countOcc (str ''</body>'') ([0x0A, 0x20, 0x20] @ canonMeta) = 0"
  "countOcc (str ''</body>'') (str ''<head>'' @ canonMeta @ str ''</head>'' @ [0x0A]) = 0"
  by code_simp+

lemma closer_counts_html:
  "countOcc (str ''</html>'') canonMeta = 0"
  "countOcc (str ''</html>'') ([0x0A, 0x20, 0x20] @ canonMeta) = 0"
  "countOcc (str ''</html>'') (str ''<head>'' @ canonMeta @ str ''</head>'' @ [0x0A]) = 0"
  by code_simp+

lemma closer_counts:
  assumes "closerTag pat"
  shows "countOcc pat canonMeta = 0"
    and "countOcc pat ([0x0A, 0x20, 0x20] @ canonMeta) = 0"
    and "countOcc pat (str ''<head>'' @ canonMeta @ str ''</head>'' @ [0x0A]) = 0"
  using assms closer_counts_body closer_counts_html unfolding closerTag_def by blast+

lemma canon_vals:
  "canon 0x3C = 0x3C" "canon 0x3E = 0x3E" "canon 0x0A = 0x0A" "canon 0x2F = 0x2F"
  "canon 0x62 = 0x42" "canon 0x6F = 0x4F" "canon 0x64 = 0x44" "canon 0x79 = 0x59"
  "canon 0x68 = 0x48" "canon 0x74 = 0x54" "canon 0x6D = 0x4D" "canon 0x6C = 0x4C"
  by (simp_all add: canon_def)

lemma closer_inner:
  assumes "closerTag pat"
  shows "\<not> inner pat 0x3E y" "\<not> inner pat x 0x3C" "\<not> inner pat 0x0A y" "\<not> inner pat x 0x0A"
  using assms by (auto simp: closerTag_def inner_def str_def canon_vals)

lemma count3:
  assumes "closerTag pat" and "m \<noteq> []" and "hd m = 0x3C" and "last m = 0x3E"
  shows "countOcc pat (pre @ m @ post) = countOcc pat pre + countOcc pat m + countOcc pat post"
proof -
  have "hd (m @ post) = 0x3C" using assms(2,3) by simp
  then have "countOcc pat (pre @ m @ post) = countOcc pat pre + countOcc pat (m @ post)"
    using closer_inner(2) [OF assms(1)] by (simp add: countOcc_append)
  moreover have "countOcc pat (m @ post) = countOcc pat m + countOcc pat post"
    using closer_inner(1) [OF assms(1)] assms(4) by (simp add: countOcc_append)
  ultimately show ?thesis by simp
qed

lemma canonMeta_ends: "canonMeta \<noteq> []" "hd canonMeta = 0x3C" "last canonMeta = 0x3E"
  by (simp_all add: canonMeta_def str_def)

lemma found_parts:
  assumes "findFrom re None s = Some (pre, ls, t)"
  shows "s = pre @ take (sum_list ls) t @ drop (sum_list ls) t"
    and "fits re (prevAfter None pre) t ls"
    and "sum_list ls \<le> length t"
    and "replaceFirst re f s = pre @ f (take (sum_list ls) t) ls @ drop (sum_list ls) t"
proof -
  from assms have s: "s = pre @ t" and "matchHere re (prevAfter None pre) t = Some ls"
    by (auto dest: findFrom_shape)
  then show f: "fits re (prevAfter None pre) t ls" by (auto dest: matchHere_sound)
  then show "sum_list ls \<le> length t" by (rule fits_sum_le)
  show "s = pre @ take (sum_list ls) t @ drop (sum_list ls) t" using s by simp
  show "replaceFirst re f s = pre @ f (take (sum_list ls) t) ls @ drop (sum_list ls) t"
    using assms by (simp add: replaceFirst_def)
qed

lemma take_ends:
  assumes "0 < n" and "n \<le> length t"
  shows "take n t \<noteq> []" "hd (take n t) = hd t" "last (take n t) = t ! (n - 1)"
proof -
  show ne: "take n t \<noteq> []" using assms by auto
  show "hd (take n t) = hd t" using assms by simp
  have "last (take n t) = take n t ! (length (take n t) - 1)" using ne by (rule last_conv_nth)
  also have "length (take n t) = n" using assms by simp
  also have "take n t ! (n - 1) = t ! (n - 1)" using assms by simp
  finally show "last (take n t) = t ! (n - 1)" .
qed

lemma repairMeta_count:
  assumes ct: "closerTag pat"
  shows "countOcc pat (fst (repairMeta cn)) =
           countOcc pat (fst cn) - countOcc pat (rewrittenTag (fst cn))"
proof (cases "test metaCharsetRe (fst cn)")
  case hm: True
  show ?thesis
  proof (cases "test utf8MetaRe (fst cn)")
    case True
    with hm show ?thesis by (simp add: repairMeta_def Let_def rewrittenTag_def)
  next
    case False
    from hm obtain pre ls t where ff: "findFrom metaCharsetRe None (fst cn) = Some (pre, ls, t)"
      by (auto simp: test_def)
    let ?n = "sum_list ls"
    let ?m = "take ?n t" and ?post = "drop ?n t"
    note p = found_parts [OF ff]
    from meta_match_shape [OF p(2)] have sh: "0 < ?n" "hd t = 0x3C" "t ! (?n - 1) = 0x3E"
      by simp_all
    have m: "?m \<noteq> []" "hd ?m = 0x3C" "last ?m = 0x3E"
      using take_ends [OF sh(1) p(3)] sh by simp_all
    have "countOcc pat (fst cn) = countOcc pat pre + countOcc pat ?m + countOcc pat ?post"
      using count3 [OF ct m, of pre ?post] p(1) by simp
    moreover have "countOcc pat (pre @ canonMeta @ ?post) = countOcc pat pre + countOcc pat ?post"
      using count3 [OF ct canonMeta_ends, of pre ?post] closer_counts(1) [OF ct] by simp
    moreover have "fst (repairMeta cn) = pre @ canonMeta @ ?post"
      using hm False p(4) [of "\<lambda>m ls. canonMeta"] by (simp add: repairMeta_def Let_def)
    moreover have "rewrittenTag (fst cn) = ?m"
      using hm False ff by (simp add: rewrittenTag_def)
    ultimately show ?thesis by simp
  qed
next
  case nm: False
  then have rt: "rewrittenTag (fst cn) = []" by (simp add: rewrittenTag_def)
  show ?thesis
  proof (cases "test headRe (fst cn)")
    case True
    then obtain pre ls t where ff: "findFrom headRe None (fst cn) = Some (pre, ls, t)"
      by (auto simp: test_def)
    let ?n = "sum_list ls"
    let ?m = "take ?n t" and ?post = "drop ?n t"
    let ?ins = "[0x0A, 0x20, 0x20] @ canonMeta"
    note p = found_parts [OF ff]
    from head_match_shape [OF p(2)] have sh: "0 < ?n" "t ! (?n - 1) = 0x3E" by simp_all
    have m: "?m \<noteq> []" "last ?m = 0x3E" using take_ends [OF sh(1) p(3)] sh by simp_all
    then have lp: "last (pre @ ?m) = 0x3E" by simp
    have li: "last ?ins = 0x3E" using canonMeta_ends by simp
    have "countOcc pat ((pre @ ?m) @ ?post) = countOcc pat (pre @ ?m) + countOcc pat ?post"
      using closer_inner(1) [OF ct] lp by (intro countOcc_append) simp
    then have c0: "countOcc pat (fst cn) = countOcc pat (pre @ ?m) + countOcc pat ?post"
      using p(1) by simp
    have "countOcc pat ((pre @ ?m) @ (?ins @ ?post)) =
            countOcc pat (pre @ ?m) + countOcc pat (?ins @ ?post)"
      using closer_inner(1) [OF ct] lp by (intro countOcc_append) simp
    moreover have "countOcc pat (?ins @ ?post) = countOcc pat ?ins + countOcc pat ?post"
      using closer_inner(1) [OF ct] li by (intro countOcc_append) simp
    ultimately have c1: "countOcc pat (pre @ (?m @ ?ins) @ ?post) =
        countOcc pat (pre @ ?m) + countOcc pat ?post"
      using closer_counts(2) [OF ct] by simp
    have "fst (repairMeta cn) = pre @ (?m @ ?ins) @ ?post"
      using nm True p(4) [of "\<lambda>m ls. m @ [0x0A, 0x20, 0x20] @ canonMeta"]
      by (simp add: repairMeta_def Let_def)
    with c0 c1 rt show ?thesis by simp
  next
    case False
    let ?h = "str ''<head>'' @ canonMeta @ str ''</head>'' @ [0x0A]"
    have "last ?h = 0x0A" by simp
    then have "countOcc pat (?h @ fst cn) = countOcc pat ?h + countOcc pat (fst cn)"
      using closer_inner(3) [OF ct] by (intro countOcc_append) simp
    moreover have "fst (repairMeta cn) = ?h @ fst cn"
      using nm False by (simp add: repairMeta_def Let_def)
    ultimately show ?thesis using closer_counts(3) [OF ct] rt by simp
  qed
qed

lemma countOcc_pos: "litMatch True pat t \<Longrightarrow> t \<noteq> [] \<Longrightarrow> 0 < countOcc pat (pre @ t)"
  by (induction pre) (auto simp: neq_Nil_conv)

lemma countOcc_found: "0 < countOcc pat s \<Longrightarrow> \<exists>pre t. s = pre @ t \<and> litMatch True pat t"
proof (induction s)
  case Nil
  then show ?case by simp
next
  case (Cons c cs)
  show ?case
  proof (cases "litMatch True pat (c # cs)")
    case True
    then have "c # cs = [] @ (c # cs) \<and> litMatch True pat (c # cs)" by simp
    then show ?thesis by blast
  next
    case False
    with Cons obtain pre t where "cs = pre @ t" "litMatch True pat t" by auto
    then have "c # cs = (c # pre) @ t \<and> litMatch True pat t" by simp
    then show ?thesis by blast
  qed
qed

lemma test_lit_count:
  assumes "pat \<noteq> []"
  shows "test [Lit True pat] s = (0 < countOcc pat s)"
proof
  assume "test [Lit True pat] s"
  then obtain pre ls t where s: "s = pre @ t" and f: "fits [Lit True pat] (prevAfter None pre) t ls"
    by (rule test_elim)
  from f have l: "litMatch True pat t" by (cases ls) auto
  then have "t \<noteq> []" using assms by (cases pat; cases t) auto
  with l s show "0 < countOcc pat s" by (simp add: countOcc_pos)
next
  assume "0 < countOcc pat s"
  then obtain pre t where s: "s = pre @ t" and l: "litMatch True pat t"
    by (auto dest: countOcc_found)
  then have "fits [Lit True pat] None t [length pat]" by simp
  moreover have "list_all plain [Lit True pat]" by simp
  ultimately have "test [Lit True pat] (pre @ t @ [])" by (rule test_intro [rotated])
  with s show "test [Lit True pat] s" by simp
qed

lemma closer_self:
  "countOcc (str ''</body>'') (0x0A # str ''</body>'') = 1"
  "countOcc (str ''</html>'') (0x0A # str ''</html>'') = 1"
  "countOcc (str ''</body>'') (0x0A # str ''</html>'') = 0"
  "countOcc (str ''</html>'') (0x0A # str ''</body>'') = 0"
  by code_simp+

lemma append_closer_count:
  assumes "closerTag pat"
  shows "countOcc pat (s @ 0x0A # tag) = countOcc pat s + countOcc pat (0x0A # tag)"
  using closer_inner(4) [OF assms] by (intro countOcc_append) simp

lemma close_count_self:
  assumes "closerTag tag" and "countOcc tag (0x0A # tag) = 1"
  shows "countOcc tag (fst (closeWith [Lit True tag] tag cn)) = max 1 (countOcc tag (fst cn))"
proof -
  have ne: "tag \<noteq> []" using assms(1) by (auto simp: closerTag_def str_def)
  show ?thesis
  proof (cases "test [Lit True tag] (fst cn)")
    case True
    then have "0 < countOcc tag (fst cn)" using test_lit_count [OF ne] by simp
    with True show ?thesis by (simp add: closeWith_def)
  next
    case False
    then have "countOcc tag (fst cn) = 0" using test_lit_count [OF ne, of "fst cn"] by simp
    with False assms(2) show ?thesis
      by (simp add: closeWith_def append_closer_count [OF assms(1)] del: countOcc.simps)
  qed
qed

lemma close_count_other:
  assumes "closerTag pat" and "countOcc pat (0x0A # tag) = 0"
  shows "countOcc pat (fst (closeWith re tag cn)) = countOcc pat (fst cn)"
  using assms(2) by (simp add: closeWith_def append_closer_count [OF assms(1)] del: countOcc.simps)

lemma closeBody_count:
  "countOcc (str ''</body>'') (fst (closeWith bodyRe (str ''</body>'') cn)) =
     max 1 (countOcc (str ''</body>'') (fst cn))"
  "countOcc (str ''</html>'') (fst (closeWith bodyRe (str ''</body>'') cn)) =
     countOcc (str ''</html>'') (fst cn)"
  unfolding bodyRe_def
  by (rule close_count_self close_count_other; simp add: closerTag_def closer_self del: countOcc.simps)+

lemma closeHtml_count:
  "countOcc (str ''</html>'') (fst (closeWith htmlRe (str ''</html>'') cn)) =
     max 1 (countOcc (str ''</html>'') (fst cn))"
  "countOcc (str ''</body>'') (fst (closeWith htmlRe (str ''</html>'') cn)) =
     countOcc (str ''</body>'') (fst cn)"
  unfolding htmlRe_def
  by (rule close_count_self close_count_other; simp add: closerTag_def closer_self del: countOcc.simps)+

lemma repair_count:
  assumes "closerTag tag"
  shows "countOcc tag (fst (repairClosers (repairMeta cn))) =
           max 1 (countOcc tag (fst cn) - countOcc tag (rewrittenTag (fst cn)))"
  using assms repairMeta_count [OF assms, of cn]
  by (auto simp: repairClosers_def closeBody_count closeHtml_count closerTag_def)

lemma repair_suffix:
  assumes "closerTag tag" and "countOcc tag (fst cn) = 0"
  shows "suffix ([0x0A] @ tag) (fst (repairClosers (repairMeta cn))) \<or>
         suffix ([0x0A] @ tag @ [0x0A] @ str ''</html>'') (fst (repairClosers (repairMeta cn)))"
proof -
  let ?R = "repairMeta cn"
  let ?X = "closeWith bodyRe (str ''</body>'') ?R"
  have r0: "countOcc tag (fst ?R) = 0" using repairMeta_count [OF assms(1), of cn] assms(2) by simp
  from assms(1) consider "tag = str ''</body>''" | "tag = str ''</html>''"
    by (auto simp: closerTag_def)
  then show ?thesis
  proof cases
    case 1
    with r0 have "\<not> test bodyRe (fst ?R)"
      using test_lit_count [of "str ''</body>''" "fst ?R"] by (simp add: bodyRe_def str_def)
    then have x: "fst ?X = fst ?R @ [0x0A] @ tag" using 1 by (simp add: closeWith_def)
    show ?thesis
    proof (cases "test htmlRe (fst ?X)")
      case True
      then have "fst (repairClosers ?R) = fst ?X" by (simp add: repairClosers_def closeWith_def)
      with x show ?thesis by (simp add: suffix_def)
    next
      case False
      then have "fst (repairClosers ?R) = fst ?X @ [0x0A] @ str ''</html>''"
        by (simp add: repairClosers_def closeWith_def)
      with x show ?thesis by (simp add: suffix_def)
    qed
  next
    case 2
    with r0 have "countOcc (str ''</html>'') (fst ?X) = 0" by (simp add: closeBody_count)
    then have "\<not> test htmlRe (fst ?X)"
      using test_lit_count [of "str ''</html>''" "fst ?X"] by (simp add: htmlRe_def str_def)
    then have "fst (repairClosers ?R) = fst ?X @ [0x0A] @ tag"
      using 2 by (simp add: repairClosers_def closeWith_def)
    then show ?thesis by (simp add: suffix_def)
  qed
qed

text \<open>
  C3, amended. Let \<open>decoded\<close> be the text after step 3 and \<open>final\<close> the content after
  step 5, and let the tag be \<open></body>\<close> or \<open></html>\<close>, counted in any case. When \<open>decoded\<close>
  lacks the tag, \<open>final\<close> has it exactly once, appended at the end (before the appended
  \<open></html>\<close> at most). When \<open>decoded\<close> has the tag and no occurrence lies inside the
  declaration tag that step 4 replaces, \<open>final\<close> has as many as \<open>decoded\<close>. In general the
  occurrences inside the replaced declaration tag are lost, and one is appended when none
  is left.
\<close>

theorem structural_closure:
  assumes "tag = str ''</body>'' \<or> tag = str ''</html>''"
    and "steps1to5 lib buffer forceEnc = (e, final, nf)"
    and "decoded = fst (transcode lib buffer e)"
  shows "test [Lit True tag] decoded = (0 < countOcc tag decoded) \<and>
         countOcc tag final = max 1 (countOcc tag decoded - countOcc tag (rewrittenTag decoded)) \<and>
         (countOcc tag decoded = 0 \<longrightarrow>
            countOcc tag final = 1 \<and>
            (suffix ([0x0A] @ tag) final \<or>
             suffix ([0x0A] @ tag @ [0x0A] @ str ''</html>'') final)) \<and>
         (0 < countOcc tag decoded \<and> countOcc tag (rewrittenTag decoded) = 0 \<longrightarrow>
            countOcc tag final = countOcc tag decoded)"
proof -
  have ct: "closerTag tag" using assms(1) by (simp add: closerTag_def)
  then have ne: "tag \<noteq> []" by (auto simp: closerTag_def str_def)
  let ?cn = "transcode lib buffer e"
  from assms(2) have f: "final = fst (repairClosers (repairMeta ?cn))"
    by (auto simp: steps1to5_def Let_def)
  have c: "countOcc tag final = max 1 (countOcc tag decoded - countOcc tag (rewrittenTag decoded))"
    unfolding f assms(3) using ct by (rule repair_count)
  have s: "countOcc tag decoded = 0 \<Longrightarrow>
      suffix ([0x0A] @ tag) final \<or> suffix ([0x0A] @ tag @ [0x0A] @ str ''</html>'') final"
    unfolding f assms(3) using ct by (rule repair_suffix)
  show ?thesis using c s test_lit_count [OF ne, of decoded] by auto
qed

lemma swallow_noEsc: "\<not> hasEsc swallowPage"
  by (simp add: hasEsc_def swallowPage_def asciiBytes_def)

lemma swallow_utf8: "toStringUtf8 swallowPage = swallowText"
  by (simp add: toStringUtf8_def swallowPage_def asciiBytes_def toUtf16_def swallowText_def
      str_def)

lemma swallow_repair: "repairClosers (repairMeta (swallowText, False)) = (plainText, True)"
  by code_simp

lemma swallow_steps:
  "steps1to5 (stubLib (Some ''UTF8'')) swallowPage None = (Some ''UTF8'', plainText, True)"
  using swallow_noEsc utf8_is_utf8
  by (simp add: steps1to5_def detectEnc_def Let_def jsOr_def truthy_def stubLib_def
      transcode_def swallow_utf8 swallow_repair)

lemma swallow_counts:
  "countOcc (str ''</body>'') swallowText = 2" "countOcc (str ''</body>'') plainText = 1"
  by code_simp+

text \<open>
  C3 as stated fails: the declaration tag that is replaced runs to the next \<open>>\<close>, so an
  unclosed \<open><meta charset=x\<close> takes the \<open></body>\<close> after it along. The input has two
  \<open></body>\<close>, the output one.
\<close>

theorem structural_closure_counterexample:
  "countOcc (str ''</body>'') (toStringUtf8 swallowPage) = 2 \<and>
   (case fixHtmlEncodingIfNeeded (stubLib (Some ''UTF8'')) (oneFile ''a.html'' swallowPage) ''a.html'' None of
      Inl e \<Rightarrow> False
    | Inr (r, w') \<Rightarrow>
        (case files w' ''a.html'' of
           None \<Rightarrow> False
         | Some stored \<Rightarrow> countOcc (str ''</body>'') (toStringUtf8 stored) = 1))"
proof -
  have f: "files (oneFile ''a.html'' swallowPage) ''a.html'' = Some swallowPage"
    by (simp add: oneFile_def)
  show ?thesis
    using fix_outcome [OF f, of "stubLib (Some ''UTF8'')" None]
    by (auto simp: swallow_steps swallow_utf8 swallow_counts plainText_encoded plainPage_utf8
        split: sum.splits)
qed

lemma twoMeta_counts:
  "countOcc (str ''</body>'') twoMetaText = 1"
  "countOcc (str ''</body>'') (rewrittenTag twoMetaText) = 0"
  by code_simp+

theorem structural_closure_witness:
  "countOcc (str ''</body>'') twoMetaFixed = countOcc (str ''</body>'') twoMetaText \<and>
   countOcc (str ''</html>'')
     (str ''<head>'' @ canonMeta @ str ''</head>'' @ [0x0A, 0x0A] @ str ''</body>'' @ [0x0A] @
        str ''</html>'') = 1"
proof -
  let ?L = "stubLib (Some ''UTF8'')"
  have a1: "str ''</body>'' = str ''</body>'' \<or> str ''</body>'' = str ''</html>''" by simp
  have a3: "twoMetaText = fst (transcode ?L twoMetaPage (Some ''UTF8''))"
    using utf8_is_utf8 by (simp add: transcode_def twoMeta_utf8)
  have b1: "str ''</html>'' = str ''</body>'' \<or> str ''</html>'' = str ''</html>''" by simp
  have b3: "[] = fst (transcode ?L [] (Some ''UTF8''))"
    using utf8_is_utf8 by (simp add: transcode_def toStringUtf8_def)
  show ?thesis
    using structural_closure [OF a1 twoMeta_steps a3] structural_closure [OF b1 steps1to5_empty b3]
      twoMeta_counts
    by simp
qed

section \<open>Counting the declaration tags\<close>

text \<open>
  A match of a pattern for a whole tag lies between two neighbouring \<open>>\<close>, so the number of
  matches in a text is the sum over its pieces, and replacing or inserting a whole tag
  changes the count by that tag only.
\<close>

lemma gtLit_eq: "gtLit it \<longleftrightarrow> it = Lit True [0x3E]"
  by (cases it) auto

lemma closedTag_shape:
  "closedTag re \<longleftrightarrow> (\<exists>body. re = body @ [Lit True [0x3E]] \<and> list_all gtFree body)"
proof
  assume "closedTag re"
  then have "re = butlast re @ [Lit True [0x3E]]" "list_all gtFree (butlast re)"
    using append_butlast_last_id [of re] by (simp_all add: closedTag_def gtLit_eq)
  then show "\<exists>body. re = body @ [Lit True [0x3E]] \<and> list_all gtFree body" by blast
next
  assume "\<exists>body. re = body @ [Lit True [0x3E]] \<and> list_all gtFree body"
  then show "closedTag re" by (auto simp: closedTag_def)
qed







lemma unit_noGt:
  assumes "if ic then canon p = canon c else p = c" and "p \<noteq> 0x3E"
  shows "c \<noteq> 0x3E"
proof
  assume c: "c = 0x3E"
  show False
  proof (cases ic)
    case True
    with assms(1) c have "canon 0x3E = canon p" by simp
    moreover have "(0x3E::cu) = 0x3C \<or> (0x3E::cu) = 0x3E" by simp
    ultimately have "p = 0x3E" by (rule canon_punct [rotated])
    with assms(2) show False by simp
  next
    case False
    with assms c show False by simp
  qed
qed

lemma litMatch_noGt:
  "litMatch ic l s \<Longrightarrow> 0x3E \<notin> set l \<Longrightarrow> 0x3E \<notin> set (take (length l) s)"
proof (induction ic l s rule: litMatch.induct)
  case (1 ic s)
  show ?case by simp
next
  case (2 ic p ps)
  then show ?case by simp
next
  case (3 ic p ps c cs)
  from "3.prems" have u: "if ic then canon p = canon c else p = c" and m: "litMatch ic ps cs"
    and p: "p \<noteq> 0x3E" and ps: "0x3E \<notin> set ps" by auto
  from u p have "c \<noteq> 0x3E" by (rule unit_noGt)
  moreover from "3.IH" [OF m ps] have "0x3E \<notin> set (take (length ps) cs)" .
  ultimately show ?case by simp
qed

lemma itemOk_noGt: "gtFree it \<Longrightarrow> itemOk it p s k \<Longrightarrow> 0x3E \<notin> set (take k s)"
proof (cases it)
  case (Lit ic l)
  assume "gtFree it" "itemOk it p s k"
  with Lit show ?thesis by (auto dest: litMatch_noGt)
next
  case (Rep g cls lo hi)
  assume a: "gtFree it" "itemOk it p s k"
  with Rep have k: "k \<le> length (takeWhile cls s)" by simp
  have "take k (takeWhile cls s @ dropWhile cls s) = take k (takeWhile cls s)"
    using k by (simp del: takeWhile_dropWhile_id)
  then have "take k s = take k (takeWhile cls s)" by simp
  then have "set (take k s) \<subseteq> set (takeWhile cls s)" using set_take_subset by metis
  moreover have "0x3E \<notin> set (takeWhile cls s)" using a Rep by (auto dest: set_takeWhileD)
  ultimately show ?thesis by auto
qed auto

lemma fits_noGt:
  "list_all gtFree body \<Longrightarrow> fits body p s ls \<Longrightarrow> 0x3E \<notin> set (take (sum_list ls) s)"
proof (induction body p s ls rule: fits.induct)
  case (3 it r prev s k ks)
  then have "0x3E \<notin> set (take k s)" "0x3E \<notin> set (take (sum_list ks) (drop k s))"
    by (auto dest: itemOk_noGt)
  then show ?case by (simp add: take_add)
qed auto


lemma fits_app_elim:
  "fits (r1 @ r2) p s ls \<Longrightarrow>
     \<exists>l1 l2 q. ls = l1 @ l2 \<and> fits r1 p s l1 \<and> fits r2 q (drop (sum_list l1) s) l2"
proof (induction r1 arbitrary: p s ls)
  case Nil
  then show ?case by auto
next
  case (Cons it r)
  from Cons.prems obtain k ks where ls: "ls = k # ks" by (cases ls) auto
  with Cons.prems have ok: "itemOk it p s k"
    and f: "fits (r @ r2) (prevAfter p (take k s)) (drop k s) ks" by auto
  from Cons.IH [OF f] obtain l1 l2 q where "ks = l1 @ l2"
    "fits r (prevAfter p (take k s)) (drop k s) l1" "fits r2 q (drop (sum_list l1) (drop k s)) l2"
    by blast
  with ls ok have "ls = (k # l1) @ l2 \<and> fits (it # r) p s (k # l1) \<and>
      fits r2 q (drop (sum_list (k # l1)) s) l2"
    by (simp add: add.commute)
  then show ?case by blast
qed


lemma closed_end:
  assumes "closedTag re" and "fits re p s ls"
  shows "0 < sum_list ls \<and> sum_list ls \<le> length s \<and> s ! (sum_list ls - 1) = 0x3E \<and>
         0x3E \<notin> set (take (sum_list ls - 1) s)"
proof -
  from assms(1) obtain body where re: "re = body @ [Lit True [0x3E]]" and g: "list_all gtFree body"
    by (auto simp: closedTag_shape)
  from assms(2) re obtain l1 l2 q where ls: "ls = l1 @ l2" and f1: "fits body p s l1"
    and f2: "fits [Lit True [0x3E]] q (drop (sum_list l1) s) l2"
    using fits_app_elim [of body "[Lit True [0x3E]]" p s ls] by auto
  from f2 have l2: "l2 = [1]" and lm: "litMatch True [0x3E] (drop (sum_list l1) s)"
    by (cases l2; cases "tl l2"; auto)+
  from lm have d: "drop (sum_list l1) s \<noteq> []" "hd (drop (sum_list l1) s) = 0x3E"
    using litMatch_gt_hd [of "drop (sum_list l1) s"] by (simp_all add: str_def)
  then have lt: "sum_list l1 < length s" by simp
  with d have "s ! sum_list l1 = 0x3E" by (simp add: hd_drop_conv_nth)
  moreover have "0x3E \<notin> set (take (sum_list l1) s)" using g f1 by (rule fits_noGt)
  moreover have "sum_list ls = Suc (sum_list l1)" using ls l2 by simp
  ultimately show ?thesis using lt by simp
qed



































lemma closed_noTest:
  assumes "closedTag re" and "0x3E \<notin> set s"
  shows "\<not> test re s"
proof
  assume "test re s"
  then obtain pre ls t where s: "s = pre @ t" and f: "fits re (prevAfter None pre) t ls"
    by (rule test_elim)
  from closed_end [OF assms(1) f] have "sum_list ls - 1 < length t" "t ! (sum_list ls - 1) = 0x3E"
    by auto
  then have "0x3E \<in> set t" by (metis nth_mem)
  with s assms(2) show False by simp
qed
































text \<open>
  The condition on the end of the text is needed: a declaration tag left open at the end
  is completed by the \<open></body>\<close> that step 5 appends, and then counts.
\<close>

lemma open_tail_completed:
  "matchCount metaCharsetRe (str ''<meta charset=Shift_JIS><meta charset=x'') = 1"
  "matchCount metaCharsetRe
     (fst (repairClosers (repairMeta (str ''<meta charset=Shift_JIS><meta charset=x'', False)))) = 2"
  by code_simp+











section \<open>preprocessMarkdown on the example documents\<close>

lemma preprocess_marpDoc: "preprocessMarkdown marpDoc = str ''## **Q1**'' @ [0x0A] @ str ''text''"
  by code_simp

text \<open>
  C8. The front matter pattern carries flag \<open>m\<close>, so its \<open>^\<close> matches at the start of any
  line: in a document that has no front matter, the first horizontal rule, the text up to
  the next \<open>---\<close> and that rule are removed. Here \<open>Section one\<close> and both rules are lost.
\<close>

theorem preprocess_removes_inner_block:
  "preprocessMarkdown rulesDoc = str ''# Title'' @ [0x0A] @ str ''Section two''"
  by code_simp

end
